theory Spec2Isabelle
  imports Complex_Main "HOL-Library.Multiset"
begin

unbundle bit_operations_syntax

section \<open>The low-level Fourier transform of fun/fourier.go\<close>

text \<open>
  The embedding follows \<^verbatim>\<open>FourierTransLL\<close>, \<^verbatim>\<open>IsPowerOfTwo\<close> and \<^verbatim>\<open>Swap\<close> of
  \<^verbatim>\<open>src/fun/fourier.go\<close> statement by statement.

  \<^item> Go's \<^verbatim>\<open>int\<close> is modelled by \<^typ>\<open>int\<close>. Every integer the routine computes lies
    between \<open>0\<close> and \<open>2 * len(data) + 1\<close>, which a machine integer holds for every
    slice of \<^verbatim>\<open>float64\<close> that fits in memory, and \<^verbatim>\<open>IsPowerOfTwo\<close> subtracts one
    only from a positive number, so no operation wraps around. \<^verbatim>\<open>n << 1\<close> and
    \<^verbatim>\<open>m >>= 1\<close> are \<^const>\<open>push_bit\<close> and \<^const>\<open>drop_bit\<close>.
  \<^item> \<^verbatim>\<open>float64\<close> is modelled by \<^typ>\<open>real\<close>: the arithmetic is exact, rounding is
    not part of the model. \<^verbatim>\<open>math.Sin\<close> and \<^verbatim>\<open>math.Pi\<close> are \<^const>\<open>sin\<close> and
    \<^const>\<open>pi\<close>. A statement about the values in the array is therefore a statement
    about the routine in exact arithmetic; the statements about control flow, indices,
    errors and the positions of the samples do not depend on the arithmetic.
  \<^item> The slice \<^verbatim>\<open>data\<close> is a \<^typ>\<open>real list\<close> that is passed through the routine and
    returned; an index expression outside \<open>0 .. len(data) - 1\<close> panics in Go and is
    the value \<open>Inl IndexOutOfRange\<close> here.
  \<^item> A loop whose exit does not follow from its own guard and step is a
    \<^theory_text>\<open>partial_function\<close> in the option monad: \<open>None\<close> means that the loop
    does not return.
\<close>

subsection \<open>Results\<close>

text \<open>
  Modelled from the spec: \<^verbatim>\<open>chk.Err\<close> belongs to the package \<^verbatim>\<open>chk\<close> of this
  repository, which is not among the sources. It builds a non-nil error from a format
  string and its arguments; the spec names the two kinds of error of the routine
  \<^verbatim>\<open>InvalidLength\<close> and \<^verbatim>\<open>NotPowerOfTwo\<close>. Each constructor stands for one of the
  two calls and carries the integer that is formatted into the message: the length check
  (``len(data)=2*n must be greater than 4 and must be even'') and the power-of-two check
  (``n=len(data)/2 must be power of 2'').
\<close>

datatype error = InvalidLength int | NotPowerOfTwo int

datatype panic = IndexOutOfRange

type_synonym float64 = real

text \<open>The bounds check of an index expression \<^verbatim>\<open>data[k]\<close>.\<close>

definition inb :: "float64 list \<Rightarrow> int \<Rightarrow> bool" where
  "inb data k = (0 \<le> k \<and> k < int (length data))"

subsection \<open>IsPowerOfTwo and Swap\<close>

definition IsPowerOfTwo :: "int \<Rightarrow> bool" where
  "IsPowerOfTwo n = (if n < 1 then False else n AND (n - 1) = 0)"

text \<open>
  \<^verbatim>\<open>Swap(a, b *float64)\<close> exchanges the contents of two addresses. The addresses the
  routine passes are elements of \<^verbatim>\<open>data\<close>, so an address is an index into the list.
\<close>

definition Swap :: "float64 list \<Rightarrow> nat \<Rightarrow> nat \<Rightarrow> float64 list" where
  "Swap data a b = data[a := data ! b, b := data ! a]"

text \<open>
  \<^verbatim>\<open>Swap(&data[a], &data[b])\<close>: both index expressions are evaluated, with their bounds
  checks, before the call.
\<close>

definition swap_at :: "float64 list \<Rightarrow> int \<Rightarrow> int \<Rightarrow> panic + float64 list" where
  "swap_at data a b =
     (if inb data a \<and> inb data b then Inr (Swap data (nat a) (nat b))
      else Inl IndexOutOfRange)"

subsection \<open>The bit-reversal section\<close>

text \<open>The loop \<^verbatim>\<open>for m >= 2 && j > m { j -= m; m >>= 1 }\<close>; it returns \<open>(m, j)\<close>.\<close>

function carry :: "int \<Rightarrow> int \<Rightarrow> int \<times> int" where
  "carry m j = (if m \<ge> 2 \<and> j > m then carry (drop_bit 1 m) (j - m) else (m, j))"
  by pat_completeness auto
termination
  by (relation "measure (\<lambda>(m, j). nat m)") (auto simp: drop_bit_eq_div)

declare carry.simps [simp del]

text \<open>The body of \<^verbatim>\<open>if j > i { ... }\<close>: the two calls of \<^verbatim>\<open>Swap\<close>.\<close>

definition exchange :: "int \<Rightarrow> int \<Rightarrow> float64 list \<Rightarrow> panic + float64 list" where
  "exchange i j data =
     (if j > i then
        (case swap_at data (j - 1) (i - 1) of
           Inl p \<Rightarrow> Inl p
         | Inr d \<Rightarrow> swap_at d j i)
      else Inr data)"

text \<open>The loop \<^verbatim>\<open>for i := 1; i < nn; i += 2 { ... }\<close> with the current \<open>i\<close> and \<open>j\<close>.\<close>

function bitrev_loop :: "int \<Rightarrow> int \<Rightarrow> int \<Rightarrow> int \<Rightarrow> float64 list \<Rightarrow> panic + float64 list" where
  "bitrev_loop n nn i j data =
     (if i < nn then
        (case exchange i j data of
           Inl p \<Rightarrow> Inl p
         | Inr d \<Rightarrow>
             (case carry n j of (m, j') \<Rightarrow> bitrev_loop n nn (i + 2) (j' + m) d))
      else Inr data)"
  by pat_completeness auto
termination
  by (relation "measure (\<lambda>(n, nn, i, j, data). nat (nn - i))") auto

declare bitrev_loop.simps [simp del]

definition bit_reversal :: "int \<Rightarrow> float64 list \<Rightarrow> panic + float64 list" where
  "bit_reversal n data = bitrev_loop n (push_bit 1 n) 1 1 data"

subsection \<open>The Danielson-Lanczos section\<close>

text \<open>
  The body of the innermost loop, with \<open>j = i + mmax\<close>. It reads and writes
  \<^verbatim>\<open>data[j-1]\<close>, \<^verbatim>\<open>data[j]\<close>, \<^verbatim>\<open>data[i-1]\<close> and \<^verbatim>\<open>data[i]\<close> on every execution, so
  it panics exactly when one of the four indices is out of range; the four
  assignments are kept in the order of the source.
\<close>

definition butterfly :: "float64 \<Rightarrow> float64 \<Rightarrow> int \<Rightarrow> int \<Rightarrow> float64 list \<Rightarrow> panic + float64 list" where
  "butterfly wr wi i j data =
     (if inb data (j - 1) \<and> inb data j \<and> inb data (i - 1) \<and> inb data i then
        (let tempr = wr * data ! nat (j - 1) - wi * data ! nat j;
             tempi = wr * data ! nat j + wi * data ! nat (j - 1);
             d1 = data[nat (j - 1) := data ! nat (i - 1) - tempr];
             d2 = d1[nat j := d1 ! nat i - tempi];
             d3 = d2[nat (i - 1) := d2 ! nat (i - 1) + tempr];
             d4 = d3[nat i := d3 ! nat i + tempi]
         in Inr d4)
      else Inl IndexOutOfRange)"

text \<open>The loop \<^verbatim>\<open>for i := m; i <= nn; i += istep { ... }\<close> with the current \<open>i\<close>.\<close>

partial_function (option) dl_i_loop ::
  "int \<Rightarrow> int \<Rightarrow> int \<Rightarrow> float64 \<Rightarrow> float64 \<Rightarrow> int \<Rightarrow> float64 list \<Rightarrow> (panic + float64 list) option"
where
  "dl_i_loop nn mmax istep wr wi i data =
     (if i \<le> nn then
        (case butterfly wr wi i (i + mmax) data of
           Inl p \<Rightarrow> Some (Inl p)
         | Inr d \<Rightarrow> dl_i_loop nn mmax istep wr wi (i + istep) d)
      else Some (Inr data))"

text \<open>
  The loop \<^verbatim>\<open>for m = 1; m < mmax; m += 2 { ... }\<close> with the current \<open>m\<close>, \<open>wr\<close> and
  \<open>wi\<close>; after the inner loop it advances the trigonometric recurrence.
\<close>

function dl_m_loop ::
  "int \<Rightarrow> int \<Rightarrow> int \<Rightarrow> float64 \<Rightarrow> float64 \<Rightarrow> float64 \<Rightarrow> float64 \<Rightarrow> int \<Rightarrow> float64 list
     \<Rightarrow> (panic + float64 list) option"
where
  "dl_m_loop nn mmax istep wpr wpi wr wi m data =
     (if m < mmax then
        (case dl_i_loop nn mmax istep wr wi m data of
           None \<Rightarrow> None
         | Some (Inl p) \<Rightarrow> Some (Inl p)
         | Some (Inr d) \<Rightarrow>
             (let wtemp = wr;
                  wr' = wr * wpr - wi * wpi + wr;
                  wi' = wi * wpr + wtemp * wpi + wi
              in dl_m_loop nn mmax istep wpr wpi wr' wi' (m + 2) d))
      else Some (Inr data))"
  by pat_completeness auto
termination
  by (relation "measure (\<lambda>(nn, mmax, istep, wpr, wpi, wr, wi, m, data). nat (mmax - m))") auto

declare dl_m_loop.simps [simp del]

text \<open>
  The angle \<^verbatim>\<open>theta = isign * (2.0 * math.Pi / float64(mmax))\<close> of a stage;
  \<^verbatim>\<open>float64(mmax)\<close> is \<^const>\<open>real_of_int\<close>.
\<close>

definition theta_of :: "float64 \<Rightarrow> int \<Rightarrow> float64" where
  "theta_of isign mmax = isign * (2.0 * pi / real_of_int mmax)"

text \<open>
  One pass of the outer loop body for a given \<open>mmax\<close>, up to the assignment
  \<^verbatim>\<open>mmax = istep\<close>.
\<close>

definition dl_stage :: "int \<Rightarrow> float64 \<Rightarrow> int \<Rightarrow> float64 list \<Rightarrow> (panic + float64 list) option" where
  "dl_stage nn isign mmax data =
     (let istep = push_bit 1 mmax;
          theta = theta_of isign mmax;
          wtemp = sin (0.5 * theta);
          wpr = - 2.0 * wtemp * wtemp;
          wpi = sin theta;
          wr = 1.0;
          wi = 0.0
      in dl_m_loop nn mmax istep wpr wpi wr wi 1 data)"

text \<open>The loop \<^verbatim>\<open>for nn > mmax { ...; mmax = istep }\<close> with the current \<open>mmax\<close>.\<close>

partial_function (option) dl_loop ::
  "int \<Rightarrow> float64 \<Rightarrow> int \<Rightarrow> float64 list \<Rightarrow> (panic + float64 list) option"
where
  "dl_loop nn isign mmax data =
     (if nn > mmax then
        (case dl_stage nn isign mmax data of
           None \<Rightarrow> None
         | Some (Inl p) \<Rightarrow> Some (Inl p)
         | Some (Inr d) \<Rightarrow> dl_loop nn isign (push_bit 1 mmax) d)
      else Some (Inr data))"

text \<open>The assignment of \<^verbatim>\<open>isign\<close>.\<close>

definition isign_of :: "bool \<Rightarrow> float64" where
  "isign_of inv_flag = (if inv_flag then 1.0 else - 1.0)"

subsection \<open>The inverse fix and the whole routine\<close>

text \<open>The loop \<^verbatim>\<open>for i := 0; i < n; i++ { data[i] *= mul }\<close> with the current \<open>i\<close>.\<close>

function fix_loop :: "int \<Rightarrow> float64 \<Rightarrow> int \<Rightarrow> float64 list \<Rightarrow> panic + float64 list" where
  "fix_loop n mul i data =
     (if i < n then
        (if inb data i then fix_loop n mul (i + 1) (data[nat i := data ! nat i * mul])
         else Inl IndexOutOfRange)
      else Inr data)"
  by pat_completeness auto
termination
  by (relation "measure (\<lambda>(n, mul, i, data). nat (n - i))") auto

declare fix_loop.simps [simp del]

definition fix_inverse :: "bool \<Rightarrow> int \<Rightarrow> float64 list \<Rightarrow> panic + float64 list" where
  "fix_inverse inv_flag n data =
     (if inv_flag then fix_loop n (1.0 * real_of_int n) 0 data else Inr data)"

text \<open>
  The result of a call: \<open>None\<close> when it does not return, \<open>Some (Inl p)\<close> when it panics,
  and \<open>Some (Inr (err, data'))\<close> when it returns \<open>err\<close> (\<open>None\<close> is Go's \<^verbatim>\<open>nil\<close>) and
  leaves \<open>data'\<close> in the caller's slice. The parameter \<^verbatim>\<open>inverse\<close> is written
  \<open>inv_flag\<close>, since \<^const>\<open>inverse\<close> is a constant of HOL.
\<close>

type_synonym outcome = "(panic + error option \<times> float64 list) option"

definition FourierTransLL :: "float64 list \<Rightarrow> bool \<Rightarrow> outcome" where
  "FourierTransLL data inv_flag =
     (let ldata = int (length data) in
      if ldata < 4 \<or> ldata mod 2 > 0 then Some (Inr (Some (InvalidLength ldata), data))
      else
        let n = ldata div 2 in
        if n < 2 \<or> \<not> IsPowerOfTwo n then Some (Inr (Some (NotPowerOfTwo n), data))
        else
          (case bit_reversal n data of
             Inl p \<Rightarrow> Some (Inl p)
           | Inr d1 \<Rightarrow>
               (case dl_loop (push_bit 1 n) (isign_of inv_flag) 2 d1 of
                  None \<Rightarrow> None
                | Some (Inl p) \<Rightarrow> Some (Inl p)
                | Some (Inr d2) \<Rightarrow>
                    (case fix_inverse inv_flag n d2 of
                       Inl p \<Rightarrow> Some (Inl p)
                     | Inr d3 \<Rightarrow> Some (Inr (None, d3))))))"


section \<open>Notions of the specification\<close>

text \<open>
  The following definitions are not part of the source; the statements about the routine
  are written with them.

  The array holds \<open>n\<close> complex samples as interleaved pairs; \<open>sample d p\<close> is sample
  \<open>p\<close> of the array \<open>d\<close>.
\<close>

definition sample :: "float64 list \<Rightarrow> nat \<Rightarrow> complex" where
  "sample d p = Complex (d ! (2 * p)) (d ! (2 * p + 1))"

text \<open>
  \<open>bitrev l k\<close> reverses the \<open>l\<close>-bit binary representation of \<open>k\<close>: the lowest bit
  of \<open>k\<close> becomes bit \<open>l - 1\<close>, and the other bits are reversed below it.
\<close>

fun bitrev :: "nat \<Rightarrow> nat \<Rightarrow> nat" where
  "bitrev 0 k = 0"
| "bitrev (Suc l) k = (k mod 2) * 2 ^ l + bitrev l (k div 2)"

text \<open>
  The source of sample \<open>p\<close> once the bit-reversal loop has run from scan position \<open>k\<close>
  to the end: the pairs \<open>{p, bitrev L p}\<close> that lie entirely at or above \<open>k\<close> are
  exchanged.
\<close>

definition swapped_from :: "nat \<Rightarrow> nat \<Rightarrow> nat \<Rightarrow> nat" where
  "swapped_from L k p = (if k \<le> p \<and> k \<le> bitrev L p then bitrev L p else p)"

text \<open>
  The root of unity of a block of \<open>H\<close> samples, \<open>e^(i \<cdot> isign \<cdot> 2\<pi> / H)\<close>;
  \<open>cis t\<close> is \<open>e^(i t)\<close>.
\<close>

definition omega :: "real \<Rightarrow> nat \<Rightarrow> complex" where
  "omega isign H = cis (isign * (2 * pi / real H))"

text \<open>
  What block \<open>c\<close> of \<open>2^s\<close> samples holds at offset \<open>l\<close> after \<open>s\<close> stages, for
  an input \<open>x\<close> of \<open>2^L\<close> samples: the transform of length \<open>2^s\<close> of the
  subsequence of \<open>x\<close> that starts at \<open>bitrev (L - s) c\<close> and has stride
  \<open>2^(L - s)\<close>. At \<open>s = L\<close> there is one block and this is the discrete Fourier
  transform of \<open>x\<close>.
\<close>

definition partial_dft :: "real \<Rightarrow> (nat \<Rightarrow> complex) \<Rightarrow> nat \<Rightarrow> nat \<Rightarrow> nat \<Rightarrow> nat \<Rightarrow> complex" where
  "partial_dft isign x L s c l =
     (\<Sum>r<2 ^ s. x (bitrev (L - s) c + 2 ^ (L - s) * r) * omega isign (2 ^ s) ^ (r * l))"

text \<open>The invariant of the outer Danielson-Lanczos loop after \<open>s\<close> stages.\<close>

definition stage_inv :: "real \<Rightarrow> (nat \<Rightarrow> complex) \<Rightarrow> nat \<Rightarrow> nat \<Rightarrow> float64 list \<Rightarrow> bool" where
  "stage_inv isign x L s d =
     (length d = 2 * 2 ^ L
      \<and> (\<forall>c<2 ^ (L - s). \<forall>l<2 ^ s. sample d (c * 2 ^ s + l) = partial_dft isign x L s c l))"

text \<open>
  The stage body run for the values of \<open>mmax\<close> of a given list, in order, stopping at
  the first stage that fails.
\<close>

fun dl_stages :: "int \<Rightarrow> float64 \<Rightarrow> int list \<Rightarrow> float64 list \<Rightarrow> (panic + float64 list) option" where
  "dl_stages nn isign [] data = Some (Inr data)"
| "dl_stages nn isign (mmax # ms) data =
     (case dl_stage nn isign mmax data of
        None \<Rightarrow> None
      | Some (Inl p) \<Rightarrow> Some (Inl p)
      | Some (Inr d) \<Rightarrow> dl_stages nn isign ms d)"

section \<open>Evaluating the routine\<close>

text \<open>The equations that unfold a call on a concrete array.\<close>

lemmas run_simps =
  FourierTransLL_def IsPowerOfTwo_def bit_reversal_def bitrev_loop.simps exchange_def
  carry.simps swap_at_def Swap_def dl_loop.simps dl_stage_def theta_of_def dl_m_loop.simps
  dl_i_loop.simps butterfly_def inb_def isign_of_def fix_inverse_def fix_loop.simps Let_def

section \<open>IsPowerOfTwo\<close>

lemma and_pred_eq_0_iff:
  "0 < (n::int) \<Longrightarrow> (n AND (n - 1) = 0) = (\<exists>k::nat. n = 2 ^ k)"
proof (induction "nat n" arbitrary: n rule: less_induct)
  case less
  show ?case
  proof (cases "even n")
    case True
    then obtain m where m: "n = 2 * m" by (auto elim: evenE)
    with less.prems have mpos: "0 < m" by simp
    have "nat m < nat n" using m mpos by simp
    from less.hyps[OF this mpos] have IH: "(m AND (m - 1) = 0) = (\<exists>k::nat. m = 2 ^ k)" .
    have d: "(2 * m - 1) div 2 = m - 1" by simp
    have e: "n AND (n - 1) = 2 * (m AND (m - 1))"
      unfolding m by (subst and_int_rec) (simp add: d)
    have "(\<exists>k::nat. n = 2 ^ k) = (\<exists>k::nat. m = 2 ^ k)"
    proof
      assume "\<exists>k::nat. n = 2 ^ k"
      then obtain k where k: "n = 2 ^ k" ..
      with True less.prems have "k \<noteq> 0" by (cases k) auto
      then obtain k' where "k = Suc k'" by (cases k) auto
      with k m have "m = 2 ^ k'" by simp
      then show "\<exists>k::nat. m = 2 ^ k" ..
    next
      assume "\<exists>k::nat. m = 2 ^ k"
      then obtain k where "m = 2 ^ k" ..
      then have "n = 2 ^ Suc k" using m by simp
      then show "\<exists>k::nat. n = 2 ^ k" ..
    qed
    with e IH show ?thesis by simp
  next
    case False
    then obtain m where m: "n = 2 * m + 1" by (auto elim: oddE)
    have e: "n AND (n - 1) = 2 * m"
      unfolding m by (subst and_int_rec) simp
    have "(\<exists>k::nat. n = 2 ^ k) = (m = 0)"
    proof
      assume "\<exists>k::nat. n = 2 ^ k"
      then obtain k where k: "n = 2 ^ k" ..
      with False have "k = 0" by (cases k) auto
      with k m show "m = 0" by simp
    next
      assume "m = 0"
      then have "n = 2 ^ 0" using m by simp
      then show "\<exists>k::nat. n = 2 ^ k" ..
    qed
    with e show ?thesis by simp
  qed
qed

lemma IsPowerOfTwo_iff_power: "IsPowerOfTwo n \<longleftrightarrow> 1 \<le> n \<and> (\<exists>k::nat. n = 2 ^ k)"
  using and_pred_eq_0_iff [of n] by (auto simp: IsPowerOfTwo_def)

text \<open>
  C10. \<^verbatim>\<open>IsPowerOfTwo(n)\<close> is true exactly when \<open>n \<ge> 1\<close> and \<open>n = 2^k\<close> for some
  \<open>k \<ge> 0\<close>. In particular it is true for \<open>1\<close>, and it is false for zero and for every
  negative number (the numbers \<open>- m\<close> with \<open>m\<close> a natural number).
\<close>

theorem C10_IsPowerOfTwo:
  "(IsPowerOfTwo n \<longleftrightarrow> 1 \<le> n \<and> (\<exists>k::nat. n = 2 ^ k))
   \<and> IsPowerOfTwo 1
   \<and> \<not> IsPowerOfTwo (- int m)"
  using and_pred_eq_0_iff [of n] by (auto simp: IsPowerOfTwo_def)

theorem C10_IsPowerOfTwo_witness:
  "IsPowerOfTwo 8 \<and> \<not> IsPowerOfTwo 12 \<and> \<not> IsPowerOfTwo 0 \<and> \<not> IsPowerOfTwo (- 4)"
proof -
  have "(8::int) = 2 ^ 3" by simp
  then have "\<exists>k::nat. (8::int) = 2 ^ k" ..
  then have a: "IsPowerOfTwo 8" using C10_IsPowerOfTwo [of 8 0] by simp
  have b: "\<not> IsPowerOfTwo (- int 0)" "\<not> IsPowerOfTwo (- int 4)"
    using C10_IsPowerOfTwo [of 1 0] C10_IsPowerOfTwo [of 1 4] by blast+
  have c: "\<not> IsPowerOfTwo 12" by (simp add: IsPowerOfTwo_def)
  from a b c show ?thesis by simp
qed

section \<open>A failed call leaves the array as it was\<close>

text \<open>
  C3. Whenever \<^verbatim>\<open>FourierTransLL\<close> returns an error, the array it leaves is the array it
  was given: both checks return before the bit-reversal section, the first statement
  that touches an element.
\<close>

theorem C3_error_leaves_data:
  "FourierTransLL data inv_flag = Some (Inr (Some e, data')) \<Longrightarrow> data' = data"
  by (auto simp: FourierTransLL_def Let_def split: if_splits sum.splits option.splits)

theorem C3_error_leaves_data_witness:
  "FourierTransLL [1, 2, 3, 4, 5, 6] False = Some (Inr (Some (NotPowerOfTwo 3), [1, 2, 3, 4, 5, 6]))
   \<and> [1, 2, 3, 4, 5, 6] = [1, 2, 3, 4, 5, 6 :: real]"
proof -
  have r: "FourierTransLL [1, 2, 3, 4, 5, 6] False
             = Some (Inr (Some (NotPowerOfTwo 3), [1, 2, 3, 4, 5, 6]))"
    by (simp add: FourierTransLL_def IsPowerOfTwo_def)
  from r C3_error_leaves_data [OF r] show ?thesis by simp
qed

section \<open>The inverse fix\<close>

text \<open>
  C1, at the array \<open>[1, 0, 0, 0]\<close> (\<open>n = 2\<close>) with \<^verbatim>\<open>inverse == true\<close>. The butterfly
  stages leave \<open>[1, 0, 1, 0]\<close>; the fix loop runs over \<open>i < n\<close>, so it multiplies the
  first two of the four entries by \<open>n = 2\<close> and the call leaves \<open>[2, 0, 1, 0]\<close>, not
  \<open>[2, 0, 2, 0]\<close>.
\<close>

theorem C1_fix_scales_first_half_only:
  "bit_reversal 2 [1, 0, 0, 0] = Inr [1, 0, 0, 0]
   \<and> dl_loop 4 (isign_of True) 2 [1, 0, 0, 0] = Some (Inr [1, 0, 1, 0])
   \<and> FourierTransLL [1, 0, 0, 0] True = Some (Inr (None, [2, 0, 1, 0]))
   \<and> FourierTransLL [1, 0, 0, 0] True \<noteq> Some (Inr (None, map (\<lambda>x. x * 2) [1, 0, 1, 0]))"
  by (simp add: run_simps)

text \<open>
  C5, at the array \<open>[1, 0, 1, 0]\<close> (\<open>n = 2\<close>). The forward transform leaves
  \<open>[2, 0, 0, 0]\<close> and the inverse transform of that leaves \<open>[4, 0, 2, 0]\<close>: the first
  sample is scaled by \<open>4\<close> and the second by \<open>2\<close>, so no single factor \<open>c\<close> gives
  \<open>c * x\<close> for every entry.
\<close>

theorem C5_round_trip_not_uniform:
  "FourierTransLL [1, 0, 1, 0] False = Some (Inr (None, [2, 0, 0, 0]))
   \<and> FourierTransLL [2, 0, 0, 0] True = Some (Inr (None, [4, 0, 2, 0]))
   \<and> \<not> (\<exists>c. [4, 0, 2, 0] = map (\<lambda>x. c * x) [1, 0, 1, 0 :: real])"
  by (simp add: run_simps)


section \<open>The bit-reversal section\<close>

subsection \<open>Reversing bits\<close>

lemma bitrev_less: "bitrev l k < 2 ^ l"
proof (induction l arbitrary: k)
  case 0
  show ?case by simp
next
  case (Suc l)
  show ?case using Suc [of "k div 2"] by (simp add: mod2_eq_if)
qed

lemma int_bitrev_less: "int (bitrev l k) < 2 ^ l"
  using bitrev_less [of l k] by (metis of_nat_less_iff of_nat_numeral of_nat_power)

lemma bitrev_top: "a < 2 ^ l \<Longrightarrow> b < 2 \<Longrightarrow> bitrev (Suc l) (a + 2 ^ l * b) = 2 * bitrev l a + b"
proof (induction l arbitrary: a)
  case 0
  then show ?case by simp
next
  case (Suc l)
  have a2: "a div 2 < 2 ^ l" using Suc.prems(1) by auto
  have e: "a + 2 ^ Suc l * b = a + 2 * (2 ^ l * b)" by simp
  have m: "(a + 2 ^ Suc l * b) mod 2 = a mod 2" unfolding e by simp
  have d: "(a + 2 ^ Suc l * b) div 2 = a div 2 + 2 ^ l * b" unfolding e by simp
  have "bitrev (Suc (Suc l)) (a + 2 ^ Suc l * b)
          = (a mod 2) * 2 ^ Suc l + bitrev (Suc l) (a div 2 + 2 ^ l * b)"
    by (simp only: bitrev.simps m d)
  also have "\<dots> = (a mod 2) * 2 ^ Suc l + (2 * bitrev l (a div 2) + b)"
    by (simp only: Suc.IH [OF a2 Suc.prems(2)])
  also have "\<dots> = 2 * bitrev (Suc l) a + b" by simp
  finally show ?case .
qed

lemma bitrev_bitrev: "k < 2 ^ l \<Longrightarrow> bitrev l (bitrev l k) = k"
proof (induction l arbitrary: k)
  case 0
  then show ?case by simp
next
  case (Suc l)
  have k2: "k div 2 < 2 ^ l" using Suc.prems by auto
  have "bitrev (Suc l) (bitrev (Suc l) k) = bitrev (Suc l) (bitrev l (k div 2) + 2 ^ l * (k mod 2))"
    by (simp add: ac_simps)
  also have "\<dots> = 2 * bitrev l (bitrev l (k div 2)) + k mod 2"
    by (rule bitrev_top) (simp_all add: bitrev_less)
  also have "\<dots> = k" by (simp add: Suc.IH [OF k2])
  finally show ?case .
qed


lemma carry_stop: "\<not> (2 \<le> m \<and> m < j) \<Longrightarrow> carry m j = (m, j)"
  by (subst carry.simps) auto

lemma carry_go: "2 \<le> m \<Longrightarrow> m < j \<Longrightarrow> carry m j = carry (m div 2) (j - m)"
  by (subst carry.simps) (simp add: drop_bit_eq_div)

lemma carry_bitrev:
  "k + 1 < 2 ^ l \<Longrightarrow>
     (case carry (2 ^ l) (2 * int (bitrev l k) + 1) of (m, j) \<Rightarrow> j + m) = 2 * int (bitrev l (k + 1)) + 1"
proof (induction l arbitrary: k)
  case 0
  then show ?case by simp
next
  case (Suc l)
  define x where "x = int (bitrev l (k div 2))"
  define M :: int where "M = 2 ^ l"
  have x: "0 \<le> x" "x < M" unfolding x_def M_def using int_bitrev_less [of l "k div 2"] by simp_all
  have M2: "(2::int) ^ Suc l = 2 * M" by (simp add: M_def)
  show ?case
  proof (cases "even k")
    case True
    then have j: "2 * int (bitrev (Suc l) k) + 1 = 2 * x + 1" by (simp add: x_def)
    have k1: "(k + 1) mod 2 = 1" "(k + 1) div 2 = k div 2" using True by (simp_all add: mod2_eq_if)
    have r: "2 * int (bitrev (Suc l) (k + 1)) + 1 = 2 * M + 2 * x + 1"
      by (simp only: bitrev.simps k1) (simp add: x_def M_def)
    have "carry (2 * M) (2 * x + 1) = (2 * M, 2 * x + 1)"
      by (rule carry_stop) (use x in linarith)
    then show ?thesis unfolding j r M2 by simp
  next
    case False
    then have j: "2 * int (bitrev (Suc l) k) + 1 = 2 * M + (2 * x + 1)"
      by (simp add: mod2_eq_if x_def M_def)
    have k1: "(k + 1) mod 2 = 0" "(k + 1) div 2 = k div 2 + 1" using False by (simp_all add: mod2_eq_if)
    have kk: "k div 2 + 1 < 2 ^ l" using Suc.prems False by (auto elim!: oddE)
    have r: "bitrev (Suc l) (k + 1) = bitrev l (k div 2 + 1)"
      by (simp only: bitrev.simps k1)
    have "carry (2 * M) (2 * M + (2 * x + 1)) = carry (2 * M div 2) (2 * M + (2 * x + 1) - 2 * M)"
    proof (rule carry_go)
      show "2 \<le> 2 * M" using x by linarith
      show "2 * M < 2 * M + (2 * x + 1)" using x by linarith
    qed
    also have "\<dots> = carry (2 ^ l) (2 * int (bitrev l (k div 2)) + 1)"
      by (simp add: M_def x_def)
    finally show ?thesis using Suc.IH [OF kk] unfolding j r M2 by simp
  qed
qed

lemma swapped_from_less: "p < 2 ^ L \<Longrightarrow> swapped_from L k p < 2 ^ L"
  by (simp add: swapped_from_def bitrev_less)

lemma swapped_from_step:
  assumes k: "k < 2 ^ L" and p: "p < 2 ^ L"
  defines "q \<equiv> swapped_from L (Suc k) p"
  shows "(if k < bitrev L k then (if q = k then bitrev L k else if q = bitrev L k then k else q) else q)
           = swapped_from L k p"
proof -
  have kk: "bitrev L (bitrev L k) = k" and pp: "bitrev L (bitrev L p) = p"
    using k p by (simp_all add: bitrev_bitrev)
  consider "p = k" | "p \<noteq> k" "p = bitrev L k" | "p \<noteq> k" "p \<noteq> bitrev L k" by blast
  then show ?thesis
  proof cases
    case 1
    then show ?thesis by (auto simp: q_def swapped_from_def)
  next
    case 2
    then show ?thesis using kk by (auto simp: q_def swapped_from_def)
  next
    case 3
    then have "bitrev L p \<noteq> k" using pp by auto
    moreover have "bitrev L p \<noteq> bitrev L k" using 3 pp kk by metis
    ultimately show ?thesis using 3 by (auto simp: q_def swapped_from_def)
  qed
qed

lemma exchange_no: "\<not> i < j \<Longrightarrow> exchange i j d = Inr d"
  by (simp add: exchange_def)

lemma exchange_samples:
  assumes len: "length d = 2 * n" and a: "a < n" and b: "b < n" and ab: "a < b"
  shows "\<exists>d'. exchange (2 * int a + 1) (2 * int b + 1) d = Inr d' \<and> length d' = length d
           \<and> mset d' = mset d
           \<and> (\<forall>p<n. sample d' p = sample d (if p = a then b else if p = b then a else p))"
proof -
  let ?d1 = "Swap d (2 * b) (2 * a)"
  let ?d2 = "Swap ?d1 (2 * b + 1) (2 * a + 1)"
  have n1: "nat (2 * int b) = 2 * b" "nat (2 * int a) = 2 * a"
    "nat (2 * int b + 1) = 2 * b + 1" "nat (2 * int a + 1) = 2 * a + 1" by simp_all
  have s1: "swap_at d (2 * int b) (2 * int a) = Inr ?d1"
    using len a b by (simp add: swap_at_def inb_def n1)
  have l1: "length ?d1 = 2 * n" using len by (simp add: Swap_def)
  have s2: "swap_at ?d1 (2 * int b + 1) (2 * int a + 1) = Inr ?d2"
    using l1 a b unfolding swap_at_def inb_def n1 by simp
  have e: "exchange (2 * int a + 1) (2 * int b + 1) d = Inr ?d2"
    using ab by (simp add: exchange_def s1 s2)
  have l2: "length ?d2 = length d" by (simp add: Swap_def)
  have m1: "mset ?d1 = mset d" unfolding Swap_def using len a b by (simp add: mset_swap)
  have m2: "mset ?d2 = mset ?d1" unfolding Swap_def [of ?d1] using l1 a b by (simp add: mset_swap)
  have sm: "sample ?d2 p = sample d (if p = a then b else if p = b then a else p)" if "p < n" for p
    using that len a b ab by (auto simp: sample_def Swap_def nth_list_update)
  from e l2 m1 m2 sm show ?thesis by auto
qed


lemma bitrev_loop_exit: "\<not> i < nn \<Longrightarrow> bitrev_loop n nn i j d = Inr d"
  by (subst bitrev_loop.simps) simp

lemma bitrev_loop_step:
  "i < nn \<Longrightarrow> exchange i j d = Inr d1 \<Longrightarrow> carry n j = (m, j') \<Longrightarrow>
     bitrev_loop n nn i j d = bitrev_loop n nn (i + 2) (j' + m) d1"
  by (subst bitrev_loop.simps) simp

lemma bitrev_loop_samples:
  assumes "k < 2 ^ L" and "length d = 2 * 2 ^ L"
  shows "\<exists>d'. bitrev_loop (2 ^ L) (2 * 2 ^ L) (2 * int k + 1) (2 * int (bitrev L k) + 1) d = Inr d'
           \<and> length d' = length d \<and> mset d' = mset d
           \<and> (\<forall>p<2 ^ L. sample d' p = sample d (swapped_from L k p))"
  using assms
proof (induction "2 ^ L - k" arbitrary: k d)
  case 0
  then show ?case by simp
next
  case (Suc x)
  let ?n = "(2::nat) ^ L"
  let ?r = "bitrev L k"
  let ?i = "2 * int k + 1"
  let ?j = "2 * int ?r + 1"
  let ?tau = "\<lambda>q. if k < ?r then (if q = k then ?r else if q = ?r then k else q) else q"
  have r: "?r < ?n" by (rule bitrev_less)
  have ilt: "?i < 2 * 2 ^ L"
  proof -
    have "int k < int (2 ^ L)" using Suc.prems(1) by (simp only: of_nat_less_iff)
    then have "int k < 2 ^ L" by simp
    then show ?thesis by linarith
  qed
  obtain d1 where d1: "exchange ?i ?j d = Inr d1" "length d1 = length d" "mset d1 = mset d"
    "\<forall>p<?n. sample d1 p = sample d (?tau p)"
  proof (cases "k < ?r")
    case True
    from exchange_samples [OF Suc.prems(2) Suc.prems(1) r True] True that show ?thesis by auto
  next
    case False
    then have "exchange ?i ?j d = Inr d" by (intro exchange_no) simp
    with False that show ?thesis by auto
  qed
  obtain m j' where c: "carry (2 ^ L) ?j = (m, j')" by (cases "carry (2 ^ L) ?j")
  have st: "bitrev_loop (2 ^ L) (2 * 2 ^ L) ?i ?j d
              = bitrev_loop (2 ^ L) (2 * 2 ^ L) (?i + 2) (j' + m) d1"
    by (rule bitrev_loop_step [OF ilt d1(1) c])
  have i2: "?i + 2 = 2 * int (Suc k) + 1" by simp
  show ?case
  proof (cases "Suc k < ?n")
    case True
    have j2: "j' + m = 2 * int (bitrev L (Suc k)) + 1"
      using carry_bitrev [of k L] True c by simp
    have x: "x = 2 ^ L - Suc k" using Suc.hyps(2) by simp
    from Suc.hyps(1) [OF x True] d1(2) Suc.prems(2)
    obtain d' where d': "bitrev_loop (2 ^ L) (2 * 2 ^ L) (2 * int (Suc k) + 1)
          (2 * int (bitrev L (Suc k)) + 1) d1 = Inr d'"
       "length d' = length d1" "mset d' = mset d1"
       "\<forall>p<?n. sample d' p = sample d1 (swapped_from L (Suc k) p)" by auto
    have "sample d' p = sample d (swapped_from L k p)" if p: "p < ?n" for p
    proof -
      have "sample d' p = sample d1 (swapped_from L (Suc k) p)" using d'(4) p by simp
      also have "\<dots> = sample d (?tau (swapped_from L (Suc k) p))"
        using d1(4) swapped_from_less [OF p, of "Suc k"] by simp
      also have "?tau (swapped_from L (Suc k) p) = swapped_from L k p"
        by (rule swapped_from_step [OF Suc.prems(1) p])
      finally show ?thesis .
    qed
    with st i2 j2 d' d1 show ?thesis by auto
  next
    case False
    then have k: "Suc k = ?n" using Suc.prems(1) by simp
    have nr: "\<not> k < ?r" using r k by simp
    have ex: "bitrev_loop (2 ^ L) (2 * 2 ^ L) (?i + 2) (j' + m) d1 = Inr d1"
    proof (rule bitrev_loop_exit)
      have "int (Suc k) = int (2 ^ L)" using k by simp
      then have "int k + 1 = 2 ^ L" by simp
      then show "\<not> ?i + 2 < 2 * 2 ^ L" by linarith
    qed
    have "sample d1 p = sample d (swapped_from L k p)" if p: "p < ?n" for p
    proof -
      have "swapped_from L k p = p"
        using p k bitrev_less [of L p] by (auto simp: swapped_from_def)
      then show ?thesis using d1(4) p nr by simp
    qed
    with st ex d1 show ?thesis by auto
  qed
qed

lemma swapped_from_0: "swapped_from L 0 p = bitrev L p"
  by (simp add: swapped_from_def)

lemma bit_reversal_samples:
  assumes "length d = 2 * 2 ^ L"
  shows "\<exists>d'. bit_reversal (2 ^ L) d = Inr d' \<and> length d' = length d \<and> mset d' = mset d
           \<and> (\<forall>p<2 ^ L. sample d' p = sample d (bitrev L p))"
proof -
  have b0: "bitrev L 0 = 0" by (induction L) simp_all
  have pb: "push_bit 1 ((2::int) ^ L) = 2 * 2 ^ L" by (simp add: push_bit_eq_mult)
  from bitrev_loop_samples [of 0 L d] assms show ?thesis
    unfolding bit_reversal_def pb by (simp add: b0 swapped_from_0)
qed


lemma bit_top_add:
  fixes r :: nat
  assumes "r < 2 ^ l" and "b < 2"
  shows "bit (b * 2 ^ l + r) i = (if i < l then bit r i else (i = l \<and> b = 1))"
proof (cases "i < l")
  case True
  then obtain e where e: "l = i + Suc e" using less_iff_Suc_add by auto
  have "b * 2 ^ l + r = 2 ^ i * (b * 2 ^ Suc e) + r"
    unfolding e by (simp add: power_add)
  then have "(b * 2 ^ l + r) div 2 ^ i = b * 2 ^ Suc e + r div 2 ^ i"
    by (simp only: div_mult_self4 [of "2 ^ i" "b * 2 ^ Suc e" r] power_not_zero
          zero_neq_numeral not_False_eq_True)
  then show ?thesis using True by (simp add: bit_iff_odd)
next
  case False
  then obtain e where e: "i = l + e" using le_Suc_ex not_less by blast
  have "(b * 2 ^ l + r) div 2 ^ i = ((b * 2 ^ l + r) div 2 ^ l) div 2 ^ e"
    unfolding e by (simp add: power_add div_mult2_eq)
  also have "\<dots> = b div 2 ^ e" using assms(1) by simp
  finally have "bit (b * 2 ^ l + r) i = odd (b div 2 ^ e)" by (simp add: bit_iff_odd)
  also have "\<dots> = (e = 0 \<and> b = 1)"
  proof (cases e)
    case 0
    then show ?thesis using assms(2) by (cases "b = 0") auto
  next
    case (Suc e')
    have "b < 2 ^ e" unfolding Suc using assms(2) by (simp add: less_le_trans [of b 2])
    then show ?thesis using Suc by simp
  qed
  finally show ?thesis using False e by auto
qed

lemma bit_bitrev: "bit (bitrev l k) i = (i < l \<and> bit k (l - Suc i))"
proof (induction l arbitrary: k i)
  case 0
  show ?case by simp
next
  case (Suc l)
  have "bit (bitrev (Suc l) k) i = (if i < l then bit (bitrev l (k div 2)) i else (i = l \<and> k mod 2 = 1))"
    unfolding bitrev.simps by (rule bit_top_add) (simp_all add: bitrev_less)
  also have "\<dots> = (i < Suc l \<and> bit k (Suc l - Suc i))"
  proof (cases "i < l")
    case True
    then obtain e where e: "l - i = Suc e" "l - Suc i = e" by (cases "l - i") auto
    show ?thesis using True e by (simp add: Suc.IH bit_Suc)
  next
    case False
    then show ?thesis by (auto simp: bit_0 odd_iff_mod_2_eq_one)
  qed
  finally show ?case .
qed

text \<open>
  C4. For an array of \<open>2n\<close> reals with \<open>n = 2^L\<close>, the bit-reversal section returns
  without a panic; the array it leaves has the same length and the same entries with the
  same multiplicities (it is a permutation of the input), and for every sample index
  \<open>k < n\<close> the pair that was at sample \<open>k\<close> is at sample \<open>bitrev L k\<close>, the index
  whose bit \<open>i\<close> is bit \<open>L - 1 - i\<close> of \<open>k\<close>.
\<close>

theorem C4_bit_reversal:
  assumes "length data = 2 * 2 ^ L"
  shows "\<exists>d'. bit_reversal (2 ^ L) data = Inr d' \<and> length d' = length data \<and> mset d' = mset data
           \<and> (\<forall>k<2 ^ L. bitrev L k < 2 ^ L
                 \<and> (\<forall>i. bit (bitrev L k) i = (i < L \<and> bit k (L - Suc i)))
                 \<and> d' ! (2 * bitrev L k) = data ! (2 * k)
                 \<and> d' ! (2 * bitrev L k + 1) = data ! (2 * k + 1))"
proof -
  from bit_reversal_samples [OF assms] obtain d' where d':
    "bit_reversal (2 ^ L) data = Inr d'" "length d' = length data" "mset d' = mset data"
    "\<forall>p<2 ^ L. sample d' p = sample data (bitrev L p)" by auto
  have "d' ! (2 * bitrev L k) = data ! (2 * k) \<and> d' ! (2 * bitrev L k + 1) = data ! (2 * k + 1)"
    if k: "k < 2 ^ L" for k
  proof -
    have "sample d' (bitrev L k) = sample data (bitrev L (bitrev L k))"
      using d'(4) bitrev_less [of L k] by simp
    then have "sample d' (bitrev L k) = sample data k" by (simp add: bitrev_bitrev [OF k])
    then show ?thesis by (simp add: sample_def)
  qed
  with d' show ?thesis by (auto simp: bitrev_less bit_bitrev)
qed

theorem C4_bit_reversal_witness:
  "length [10, 11, 20, 21, 30, 31, 40, 41 :: real] = 2 * 2 ^ 2
   \<and> (\<exists>d'. bit_reversal (2 ^ 2) [10, 11, 20, 21, 30, 31, 40, 41] = Inr d'
          \<and> mset d' = mset [10, 11, 20, 21, 30, 31, 40, 41]
          \<and> bitrev 2 1 = 2 \<and> d' ! 4 = 20 \<and> d' ! 5 = 21)"
proof -
  let ?x = "[10, 11, 20, 21, 30, 31, 40, 41 :: real]"
  have len: "length ?x = 2 * 2 ^ 2" by simp
  have b: "bitrev 2 1 = 2" by (simp add: numeral_2_eq_2)
  from C4_bit_reversal [OF len] obtain d' where d':
    "bit_reversal (2 ^ 2) ?x = Inr d'" "mset d' = mset ?x"
    "\<forall>k<2 ^ 2. bitrev 2 k < 2 ^ 2
                 \<and> (\<forall>i. bit (bitrev 2 k) i = (i < 2 \<and> bit k (2 - Suc i)))
                 \<and> d' ! (2 * bitrev 2 k) = ?x ! (2 * k)
                 \<and> d' ! (2 * bitrev 2 k + 1) = ?x ! (2 * k + 1)" by blast
  have "(1::nat) < 2 ^ 2" by simp
  with d'(3) have "d' ! (2 * bitrev 2 1) = ?x ! (2 * 1) \<and> d' ! (2 * bitrev 2 1 + 1) = ?x ! (2 * 1 + 1)"
    by blast
  then have "d' ! 4 = 20 \<and> d' ! 5 = 21" unfolding b by simp
  with len d'(1,2) b show ?thesis by blast
qed

section \<open>The Danielson-Lanczos section\<close>

lemma butterfly_samples:
  assumes len: "length d = 2 * n" and a: "a < n" and b: "b < n" and ab: "a \<noteq> b"
  shows "\<exists>d'. butterfly wr wi (2 * int a + 1) (2 * int b + 1) d = Inr d' \<and> length d' = length d
           \<and> (\<forall>p<n. sample d' p =
                 (if p = a then sample d a + Complex wr wi * sample d b
                  else if p = b then sample d a - Complex wr wi * sample d b
                  else sample d p))"
proof -
  have n1: "nat (2 * int b + 1 - 1) = 2 * b" "nat (2 * int a + 1 - 1) = 2 * a"
    "nat (2 * int b + 1) = 2 * b + 1" "nat (2 * int a + 1) = 2 * a + 1" by simp_all
  have inb: "inb d (2 * int b + 1 - 1)" "inb d (2 * int b + 1)"
    "inb d (2 * int a + 1 - 1)" "inb d (2 * int a + 1)"
    using len a b by (simp_all add: inb_def)
  define tempr where "tempr = wr * d ! (2 * b) - wi * d ! (2 * b + 1)"
  define tempi where "tempi = wr * d ! (2 * b + 1) + wi * d ! (2 * b)"
  define d' where "d' = d[2 * b := d ! (2 * a) - tempr, 2 * b + 1 := d ! (2 * a + 1) - tempi,
      2 * a := d ! (2 * a) + tempr, 2 * a + 1 := d ! (2 * a + 1) + tempi]"
  have ne: "2 * a \<noteq> 2 * b" "2 * a + 1 \<noteq> 2 * b" "2 * a \<noteq> 2 * b + 1" "2 * a + 1 \<noteq> 2 * b + 1"
    using ab by presburger+
  have lt: "2 * a < length d" "2 * a + 1 < length d" "2 * b < length d" "2 * b + 1 < length d"
    using len a b by simp_all
  have e: "butterfly wr wi (2 * int a + 1) (2 * int b + 1) d = Inr d'"
    unfolding butterfly_def Let_def n1 d'_def tempr_def tempi_def using inb ne lt
    by (simp add: nth_list_update)
  have l: "length d' = length d" by (simp add: d'_def)
  have s: "sample d' p = (if p = a then sample d a + Complex wr wi * sample d b
                  else if p = b then sample d a - Complex wr wi * sample d b
                  else sample d p)" if "p < n" for p
  proof -
    consider "p = a" | "p = b" | "p \<noteq> a" "p \<noteq> b" by blast
    then show ?thesis
    proof cases
      case 1
      then show ?thesis using ne lt
        by (simp add: sample_def d'_def tempr_def tempi_def nth_list_update complex_eq_iff)
    next
      case 2
      then show ?thesis using ne lt ab
        by (simp add: sample_def d'_def tempr_def tempi_def nth_list_update complex_eq_iff)
    next
      case 3
      then have "2 * p \<noteq> 2 * a" "2 * p \<noteq> 2 * a + 1" "2 * p \<noteq> 2 * b" "2 * p \<noteq> 2 * b + 1"
        "2 * p + 1 \<noteq> 2 * a" "2 * p + 1 \<noteq> 2 * a + 1" "2 * p + 1 \<noteq> 2 * b" "2 * p + 1 \<noteq> 2 * b + 1"
        by presburger+
      then show ?thesis using 3 by (simp add: sample_def d'_def)
    qed
  qed
  from e l s show ?thesis by blast
qed

lemma blk_eq:
  fixes M :: nat
  assumes "o1 < M" and "o2 < M"
  shows "(c1 * M + o1 = c2 * M + o2) = (c1 = c2 \<and> o1 = o2)"
proof
  assume e: "c1 * M + o1 = c2 * M + o2"
  have "(c1 * M + o1) div M = c1" "(c2 * M + o2) div M = c2"
    "(c1 * M + o1) mod M = o1" "(c2 * M + o2) mod M = o2" using assms by simp_all
  with e show "c1 = c2 \<and> o1 = o2" by metis
qed simp

lemma blk_less:
  fixes M :: nat
  assumes "c < B" and "o1 < M"
  shows "c * M + o1 < B * M"
proof -
  have "c * M + o1 < Suc c * M" using assms(2) by simp
  also have "\<dots> \<le> B * M" using assms(1) by (intro mult_le_mono1) simp
  finally show ?thesis .
qed

lemma dl_i_loop_exit: "\<not> i \<le> nn \<Longrightarrow> dl_i_loop nn mmax istep wr wi i d = Some (Inr d)"
  by (subst dl_i_loop.simps) simp

lemma dl_i_loop_step:
  "i \<le> nn \<Longrightarrow> butterfly wr wi i (i + mmax) d = Inr d1 \<Longrightarrow>
     dl_i_loop nn mmax istep wr wi i d = dl_i_loop nn mmax istep wr wi (i + istep) d1"
  by (subst dl_i_loop.simps) simp

lemma dl_i_loop_samples:
  assumes "length d = 2 * (B * (2 * h))" and "t < h" and "q \<le> B"
  shows "\<exists>d'. dl_i_loop (2 * int (B * (2 * h))) (2 * int h) (4 * int h) wr wi
                 (2 * int (q * (2 * h) + t) + 1) d = Some (Inr d')
           \<and> length d' = length d
           \<and> (\<forall>c<B. \<forall>l<h.
                 sample d' (c * (2 * h) + l) =
                   (if q \<le> c \<and> l = t
                    then sample d (c * (2 * h) + l) + Complex wr wi * sample d (c * (2 * h) + h + l)
                    else sample d (c * (2 * h) + l))
               \<and> sample d' (c * (2 * h) + h + l) =
                   (if q \<le> c \<and> l = t
                    then sample d (c * (2 * h) + l) - Complex wr wi * sample d (c * (2 * h) + h + l)
                    else sample d (c * (2 * h) + h + l)))"
  using assms
proof (induction "B - q" arbitrary: q d)
  case 0
  then have q: "q = B" by simp
  have "dl_i_loop (2 * int (B * (2 * h))) (2 * int h) (4 * int h) wr wi
          (2 * int (q * (2 * h) + t) + 1) d = Some (Inr d)"
    by (rule dl_i_loop_exit) (simp add: q)
  then show ?case using q by auto
next
  case (Suc x)
  let ?M = "2 * h"
  let ?n = "B * ?M"
  let ?w = "Complex wr wi"
  define a where "a = q * ?M + t"
  define b where "b = q * ?M + h + t"
  have qB: "q < B" using Suc.hyps(2) by simp
  have t: "t < ?M" "h + t < ?M" using Suc.prems(2) by simp_all
  have a: "a < ?n" unfolding a_def by (rule blk_less [OF qB t(1)])
  have b: "b < ?n" unfolding b_def add.assoc by (rule blk_less [OF qB t(2)])
  have ab: "a \<noteq> b" unfolding a_def b_def using Suc.prems(2) by simp
  have i: "2 * int a + 1 \<le> 2 * int ?n" using a by linarith
  have j: "2 * int a + 1 + 2 * int h = 2 * int b + 1" by (simp add: a_def b_def)
  from butterfly_samples [OF Suc.prems(1) a b ab, of wr wi]
  obtain d1 where d1: "butterfly wr wi (2 * int a + 1) (2 * int b + 1) d = Inr d1"
    "length d1 = length d"
    "\<forall>p<?n. sample d1 p = (if p = a then sample d a + ?w * sample d b
                  else if p = b then sample d a - ?w * sample d b else sample d p)" by blast
  have st: "dl_i_loop (2 * int ?n) (2 * int h) (4 * int h) wr wi (2 * int a + 1) d
              = dl_i_loop (2 * int ?n) (2 * int h) (4 * int h) wr wi (2 * int a + 1 + 4 * int h) d1"
    by (rule dl_i_loop_step [OF i]) (simp only: j d1(1))
  have i2: "2 * int a + 1 + 4 * int h = 2 * int (Suc q * ?M + t) + 1" by (simp add: a_def)
  have x: "x = B - Suc q" using Suc.hyps(2) by simp
  have len1: "length d1 = 2 * ?n" using d1(2) Suc.prems(1) by simp
  from Suc.hyps(1) [OF x len1 Suc.prems(2)] qB
  obtain d' where d': "dl_i_loop (2 * int ?n) (2 * int h) (4 * int h) wr wi
                 (2 * int (Suc q * ?M + t) + 1) d1 = Some (Inr d')"
     "length d' = length d1"
     "\<forall>c<B. \<forall>l<h.
         sample d' (c * ?M + l) =
           (if Suc q \<le> c \<and> l = t
            then sample d1 (c * ?M + l) + ?w * sample d1 (c * ?M + h + l)
            else sample d1 (c * ?M + l))
       \<and> sample d' (c * ?M + h + l) =
           (if Suc q \<le> c \<and> l = t
            then sample d1 (c * ?M + l) - ?w * sample d1 (c * ?M + h + l)
            else sample d1 (c * ?M + h + l))" by auto
  have lo: "sample d1 (c * ?M + l) =
      (if c = q \<and> l = t then sample d a + ?w * sample d b else sample d (c * ?M + l))"
    and hi: "sample d1 (c * ?M + h + l) =
      (if c = q \<and> l = t then sample d a - ?w * sample d b else sample d (c * ?M + h + l))"
    if c: "c < B" and l: "l < h" for c l
  proof -
    have l2: "l < ?M" "h + l < ?M" using l by simp_all
    have p1: "c * ?M + l < ?n" by (rule blk_less [OF c l2(1)])
    have p2: "c * ?M + h + l < ?n" unfolding add.assoc by (rule blk_less [OF c l2(2)])
    have e1: "(c * ?M + l = a) = (c = q \<and> l = t)"
      unfolding a_def by (rule blk_eq [OF l2(1) t(1)])
    have e2: "c * ?M + l \<noteq> b"
      unfolding b_def add.assoc using blk_eq [OF l2(1) t(2), of c q] l by simp
    have e3: "c * ?M + h + l \<noteq> a"
      unfolding a_def add.assoc using blk_eq [OF l2(2) t(1), of c q] Suc.prems(2) by simp
    have e4: "(c * ?M + h + l = b) = (c = q \<and> l = t)"
      unfolding b_def add.assoc using blk_eq [OF l2(2) t(2), of c q] by simp
    show "sample d1 (c * ?M + l) =
      (if c = q \<and> l = t then sample d a + ?w * sample d b else sample d (c * ?M + l))"
      using d1(3) p1 e1 e2 by simp
    show "sample d1 (c * ?M + h + l) =
      (if c = q \<and> l = t then sample d a - ?w * sample d b else sample d (c * ?M + h + l))"
      using d1(3) p2 e3 e4 by simp
  qed
  have fin: "sample d' (c * ?M + l) =
                   (if q \<le> c \<and> l = t
                    then sample d (c * ?M + l) + ?w * sample d (c * ?M + h + l)
                    else sample d (c * ?M + l))
               \<and> sample d' (c * ?M + h + l) =
                   (if q \<le> c \<and> l = t
                    then sample d (c * ?M + l) - ?w * sample d (c * ?M + h + l)
                    else sample d (c * ?M + h + l))" if c: "c < B" and l: "l < h" for c l
  proof (cases "c = q \<and> l = t")
    case True
    then show ?thesis using d'(3) c l lo [OF c l] hi [OF c l] by (simp add: a_def b_def)
  next
    case False
    then have "(Suc q \<le> c \<and> l = t) = (q \<le> c \<and> l = t)" by auto
    then show ?thesis using d'(3) c l lo [OF c l] hi [OF c l] False by auto
  qed
  have "dl_i_loop (2 * int ?n) (2 * int h) (4 * int h) wr wi (2 * int a + 1) d = Some (Inr d')"
    using st d'(1) by (simp only: i2)
  then have res: "dl_i_loop (2 * int ?n) (2 * int h) (4 * int h) wr wi (2 * int (q * ?M + t) + 1) d
               = Some (Inr d')"
    unfolding a_def .
  have len': "length d' = length d" using d'(2) d1(2) by simp
  show ?case
    apply (rule exI [of _ d'])
    apply (rule conjI, rule res)
    apply (rule conjI, rule len')
    apply (intro allI impI)
    apply (rule fin; assumption)
    done
qed

lemma dl_m_loop_exit:
  "\<not> m < mmax \<Longrightarrow> dl_m_loop nn mmax istep wpr wpi wr wi m d = Some (Inr d)"
  by (subst dl_m_loop.simps) simp

lemma dl_m_loop_step:
  "m < mmax \<Longrightarrow> dl_i_loop nn mmax istep wr wi m d = Some (Inr d1) \<Longrightarrow>
     dl_m_loop nn mmax istep wpr wpi wr wi m d
       = dl_m_loop nn mmax istep wpr wpi (wr * wpr - wi * wpi + wr) (wi * wpr + wr * wpi + wi) (m + 2) d1"
  by (subst dl_m_loop.simps) (simp add: Let_def)

lemma dl_m_loop_samples:
  assumes "length d = 2 * (B * (2 * h))" and "t0 \<le> h"
  shows "\<exists>d'. dl_m_loop (2 * int (B * (2 * h))) (2 * int h) (4 * int h) wpr wpi wr wi
                 (2 * int t0 + 1) d = Some (Inr d')
           \<and> length d' = length d
           \<and> (\<forall>c<B. \<forall>l<h.
                 sample d' (c * (2 * h) + l) =
                   (if t0 \<le> l
                    then sample d (c * (2 * h) + l)
                           + Complex wr wi * Complex (1 + wpr) wpi ^ (l - t0) * sample d (c * (2 * h) + h + l)
                    else sample d (c * (2 * h) + l))
               \<and> sample d' (c * (2 * h) + h + l) =
                   (if t0 \<le> l
                    then sample d (c * (2 * h) + l)
                           - Complex wr wi * Complex (1 + wpr) wpi ^ (l - t0) * sample d (c * (2 * h) + h + l)
                    else sample d (c * (2 * h) + h + l)))"
  using assms
proof (induction "h - t0" arbitrary: t0 d wr wi)
  case 0
  then have t0: "t0 = h" by simp
  have "dl_m_loop (2 * int (B * (2 * h))) (2 * int h) (4 * int h) wpr wpi wr wi
          (2 * int t0 + 1) d = Some (Inr d)"
    by (rule dl_m_loop_exit) (simp add: t0)
  then show ?case using t0 by auto
next
  case (Suc x)
  let ?M = "2 * h"
  let ?n = "B * ?M"
  let ?w = "Complex wr wi"
  let ?wp = "Complex (1 + wpr) wpi"
  let ?wr' = "wr * wpr - wi * wpi + wr"
  let ?wi' = "wi * wpr + wr * wpi + wi"
  have t0: "t0 < h" using Suc.hyps(2) by simp
  have m: "2 * int t0 + 1 < 2 * int h" using t0 by linarith
  from dl_i_loop_samples [OF Suc.prems(1) t0, of 0 wr wi]
  obtain d1 where d1: "dl_i_loop (2 * int ?n) (2 * int h) (4 * int h) wr wi (2 * int t0 + 1) d
        = Some (Inr d1)" "length d1 = length d"
     "\<forall>c<B. \<forall>l<h.
         sample d1 (c * ?M + l) =
           (if l = t0 then sample d (c * ?M + l) + ?w * sample d (c * ?M + h + l)
            else sample d (c * ?M + l))
       \<and> sample d1 (c * ?M + h + l) =
           (if l = t0 then sample d (c * ?M + l) - ?w * sample d (c * ?M + h + l)
            else sample d (c * ?M + h + l))" by auto
  have st: "dl_m_loop (2 * int ?n) (2 * int h) (4 * int h) wpr wpi wr wi (2 * int t0 + 1) d
       = dl_m_loop (2 * int ?n) (2 * int h) (4 * int h) wpr wpi ?wr' ?wi' (2 * int t0 + 1 + 2) d1"
    by (rule dl_m_loop_step [OF m d1(1)])
  have m2: "2 * int t0 + 1 + 2 = 2 * int (Suc t0) + 1" by simp
  have w': "Complex ?wr' ?wi' = ?w * ?wp" by (simp add: complex_eq_iff algebra_simps)
  have x: "x = h - Suc t0" using Suc.hyps(2) by simp
  have len1: "length d1 = 2 * ?n" using d1(2) Suc.prems(1) by simp
  have t1: "Suc t0 \<le> h" using t0 by simp
  from Suc.hyps(1) [OF x len1 t1, of ?wr' ?wi']
  obtain d' where d': "dl_m_loop (2 * int ?n) (2 * int h) (4 * int h) wpr wpi ?wr' ?wi'
                 (2 * int (Suc t0) + 1) d1 = Some (Inr d')"
     "length d' = length d1"
     "\<forall>c<B. \<forall>l<h.
         sample d' (c * ?M + l) =
           (if Suc t0 \<le> l
            then sample d1 (c * ?M + l) + Complex ?wr' ?wi' * ?wp ^ (l - Suc t0) * sample d1 (c * ?M + h + l)
            else sample d1 (c * ?M + l))
       \<and> sample d' (c * ?M + h + l) =
           (if Suc t0 \<le> l
            then sample d1 (c * ?M + l) - Complex ?wr' ?wi' * ?wp ^ (l - Suc t0) * sample d1 (c * ?M + h + l)
            else sample d1 (c * ?M + h + l))" by blast
  have fin: "sample d' (c * ?M + l) =
                   (if t0 \<le> l
                    then sample d (c * ?M + l) + ?w * ?wp ^ (l - t0) * sample d (c * ?M + h + l)
                    else sample d (c * ?M + l))
               \<and> sample d' (c * ?M + h + l) =
                   (if t0 \<le> l
                    then sample d (c * ?M + l) - ?w * ?wp ^ (l - t0) * sample d (c * ?M + h + l)
                    else sample d (c * ?M + h + l))" if c: "c < B" and l: "l < h" for c l
  proof -
    note A = d'(3) [rule_format, OF c l] and B = d1(3) [rule_format, OF c l]
    consider "l < t0" | "l = t0" | "Suc t0 \<le> l" by linarith
    then show ?thesis
    proof cases
      case 1
      then show ?thesis using A B by simp
    next
      case 2
      then show ?thesis using A B by simp
    next
      case 3
      then obtain e where e: "l - t0 = Suc e" "l - Suc t0 = e" by (cases "l - t0") auto
      have ne: "l \<noteq> t0" "t0 \<le> l" using 3 by simp_all
      show ?thesis using A B 3 ne by (simp add: e w' mult.assoc)
    qed
  qed
  have res: "dl_m_loop (2 * int ?n) (2 * int h) (4 * int h) wpr wpi wr wi (2 * int t0 + 1) d
               = Some (Inr d')"
    using st d'(1) by (simp only: m2)
  have len': "length d' = length d" using d'(2) d1(2) by simp
  show ?case
    apply (rule exI [of _ d'])
    apply (rule conjI, rule res)
    apply (rule conjI, rule len')
    apply (intro allI impI)
    apply (rule fin; assumption)
    done
qed

lemma cis_from_half_sine: "Complex (1 + - 2 * sin (0.5 * x) * sin (0.5 * x)) (sin x) = cis x"
proof -
  have "cos x = cos (2 * (0.5 * x))" by simp
  also have "\<dots> = 1 - 2 * (sin (0.5 * x))\<^sup>2" by (rule cos_double_sin)
  finally show ?thesis by (simp add: complex_eq_iff power2_eq_square)
qed

lemma dl_stage_samples:
  assumes "length d = 2 * (B * (2 * h))"
  shows "\<exists>d'. dl_stage (2 * int (B * (2 * h))) isign (2 * int h) d = Some (Inr d')
           \<and> length d' = length d
           \<and> (\<forall>c<B. \<forall>l<h.
                 sample d' (c * (2 * h) + l) =
                   sample d (c * (2 * h) + l) + omega isign (2 * h) ^ l * sample d (c * (2 * h) + h + l)
               \<and> sample d' (c * (2 * h) + h + l) =
                   sample d (c * (2 * h) + l) - omega isign (2 * h) ^ l * sample d (c * (2 * h) + h + l))"
proof -
  define theta where "theta = isign * (2.0 * pi / real_of_int (2 * int h))"
  define wtemp where "wtemp = sin (0.5 * theta)"
  have pb: "push_bit 1 (2 * int h) = 4 * int h" by (simp add: push_bit_eq_mult)
  have st: "dl_stage (2 * int (B * (2 * h))) isign (2 * int h) d
        = dl_m_loop (2 * int (B * (2 * h))) (2 * int h) (4 * int h) (- 2 * wtemp * wtemp) (sin theta)
            1 0 (2 * int 0 + 1) d"
    unfolding dl_stage_def theta_of_def Let_def theta_def wtemp_def pb by simp
  have om: "Complex (1 + - 2 * wtemp * wtemp) (sin theta) = omega isign (2 * h)"
    unfolding wtemp_def cis_from_half_sine by (simp add: omega_def theta_def)
  from dl_m_loop_samples [OF assms, of 0 "- 2 * wtemp * wtemp" "sin theta" 1 0]
  show ?thesis unfolding st om by (simp add: one_complex.code [symmetric])
qed

lemma sum_even_odd:
  fixes f :: "nat \<Rightarrow> complex"
  shows "(\<Sum>r<2 * h. f r) = (\<Sum>r<h. f (2 * r)) + (\<Sum>r<h. f (2 * r + 1))"
  by (induction h) (simp_all add: algebra_simps)

lemma omega_square: "0 < h \<Longrightarrow> omega isign (2 * h) ^ 2 = omega isign h"
proof -
  assume "0 < h"
  then have "real 2 * (isign * (2 * pi / real (2 * h))) = isign * (2 * pi / real h)"
    by (simp add: field_simps)
  then show ?thesis by (simp only: omega_def DeMoivre)
qed

lemma omega_full: "isign = 1 \<or> isign = - 1 \<Longrightarrow> 0 < h \<Longrightarrow> omega isign h ^ h = 1"
  by (auto simp: omega_def DeMoivre complex_eq_iff)

lemma omega_half: "isign = 1 \<or> isign = - 1 \<Longrightarrow> 0 < h \<Longrightarrow> omega isign (2 * h) ^ h = - 1"
  by (auto simp: omega_def DeMoivre complex_eq_iff)

lemma partial_dft_step:
  assumes sg: "isign = 1 \<or> isign = - 1" and s: "s < L" and l: "l < 2 ^ s"
  defines "h \<equiv> (2::nat) ^ s"
  shows "partial_dft isign x L (Suc s) c l
           = partial_dft isign x L s (2 * c) l + omega isign (2 * h) ^ l * partial_dft isign x L s (2 * c + 1) l"
    and "partial_dft isign x L (Suc s) c (h + l)
           = partial_dft isign x L s (2 * c) l - omega isign (2 * h) ^ l * partial_dft isign x L s (2 * c + 1) l"
proof -
  let ?w = "omega isign (2 * h)"
  let ?v = "omega isign h"
  obtain e where e: "L - s = Suc e" "L - Suc s = e" using s by (cases "L - s") auto
  have h: "0 < h" by (simp add: h_def)
  have b0: "bitrev (Suc e) (2 * c) = bitrev e c" by simp
  have b1: "bitrev (Suc e) (2 * c + 1) = 2 ^ e + bitrev e c" by simp
  have vw: "?v ^ k = ?w ^ (2 * k)" for k
    by (simp add: power_mult omega_square [OF h])
  have wh: "?w ^ (h * k) = (- 1) ^ k" for k
    by (simp add: power_mult omega_half [OF sg h])
  have ev: "x (bitrev e c + 2 ^ e * (2 * r)) = x (bitrev (L - s) (2 * c) + 2 ^ (L - s) * r)" for r
    unfolding e b0 by (simp add: algebra_simps)
  have od: "x (bitrev e c + 2 ^ e * (2 * r + 1)) = x (bitrev (L - s) (2 * c + 1) + 2 ^ (L - s) * r)" for r
    unfolding e b1 by (simp add: algebra_simps)
  have split: "partial_dft isign x L (Suc s) c l'
      = (\<Sum>r<h. x (bitrev (L - s) (2 * c) + 2 ^ (L - s) * r) * ?w ^ (2 * r * l'))
        + (\<Sum>r<h. x (bitrev (L - s) (2 * c + 1) + 2 ^ (L - s) * r) * ?w ^ ((2 * r + 1) * l'))" for l'
    unfolding partial_dft_def e h_def [symmetric] power_Suc sum_even_odd ev od ..
  have p0: "partial_dft isign x L s (2 * c) l
      = (\<Sum>r<h. x (bitrev (L - s) (2 * c) + 2 ^ (L - s) * r) * ?w ^ (2 * r * l))"
    unfolding partial_dft_def h_def [symmetric] vw by (simp add: mult.assoc)
  have p1: "?w ^ l * partial_dft isign x L s (2 * c + 1) l
      = (\<Sum>r<h. x (bitrev (L - s) (2 * c + 1) + 2 ^ (L - s) * r) * ?w ^ ((2 * r + 1) * l))"
    unfolding partial_dft_def h_def [symmetric] vw sum_distrib_left
    by (rule sum.cong) (simp_all add: power_add algebra_simps)
  show "partial_dft isign x L (Suc s) c l
           = partial_dft isign x L s (2 * c) l + ?w ^ l * partial_dft isign x L s (2 * c + 1) l"
    unfolding split p0 p1 ..
  have q0: "?w ^ (2 * r * (h + l)) = ?w ^ (2 * r * l)" for r
  proof -
    have "?w ^ (2 * r * (h + l)) = ?w ^ (h * (2 * r) + 2 * r * l)" by (simp add: algebra_simps)
    also have "\<dots> = ?w ^ (h * (2 * r)) * ?w ^ (2 * r * l)" by (rule power_add)
    also have "\<dots> = ?w ^ (2 * r * l)" unfolding wh by simp
    finally show ?thesis .
  qed
  have q1: "?w ^ ((2 * r + 1) * (h + l)) = - (?w ^ ((2 * r + 1) * l))" for r
  proof -
    have "?w ^ ((2 * r + 1) * (h + l)) = ?w ^ (h * (2 * r + 1) + (2 * r + 1) * l)"
      by (simp add: algebra_simps)
    also have "\<dots> = ?w ^ (h * (2 * r + 1)) * ?w ^ ((2 * r + 1) * l)" by (rule power_add)
    also have "\<dots> = - (?w ^ ((2 * r + 1) * l))" unfolding wh by simp
    finally show ?thesis .
  qed
  show "partial_dft isign x L (Suc s) c (h + l)
           = partial_dft isign x L s (2 * c) l - ?w ^ l * partial_dft isign x L s (2 * c + 1) l"
    unfolding split p0 p1 q0 q1 by (simp add: sum_negf)
qed

lemma stage_inv_step:
  assumes sg: "isign = 1 \<or> isign = - 1" and s: "s < L" and inv: "stage_inv isign x L s d"
  shows "\<exists>d'. dl_stage (2 * 2 ^ L) isign (2 * 2 ^ s) d = Some (Inr d') \<and> stage_inv isign x L (Suc s) d'"
proof -
  define h :: nat where "h = 2 ^ s"
  define B :: nat where "B = 2 ^ (L - Suc s)"
  have BL: "B * (2 * h) = 2 ^ L"
  proof -
    have "B * (2 * h) = 2 ^ (L - Suc s + Suc s)" unfolding B_def h_def power_add by simp
    then show ?thesis using s by simp
  qed
  have B2: "2 * B = 2 ^ (L - s)"
  proof -
    have "L - s = Suc (L - Suc s)" using s by simp
    then show ?thesis by (simp add: B_def)
  qed
  have len: "length d = 2 * (B * (2 * h))" using inv by (simp add: stage_inv_def BL)
  have i1: "2 * int (B * (2 * h)) = 2 * 2 ^ L" unfolding BL by simp
  have i2: "2 * int h = 2 * 2 ^ s" by (simp add: h_def)
  from dl_stage_samples [OF len, of isign] obtain d' where d':
    "dl_stage (2 * 2 ^ L) isign (2 * 2 ^ s) d = Some (Inr d')" "length d' = length d"
    "\<forall>c<B. \<forall>l<h.
         sample d' (c * (2 * h) + l) =
           sample d (c * (2 * h) + l) + omega isign (2 * h) ^ l * sample d (c * (2 * h) + h + l)
       \<and> sample d' (c * (2 * h) + h + l) =
           sample d (c * (2 * h) + l) - omega isign (2 * h) ^ l * sample d (c * (2 * h) + h + l)"
    unfolding i1 i2 by blast
  have old: "sample d (c * h + l) = partial_dft isign x L s c l" if "c < 2 * B" "l < h" for c l
    using inv that unfolding stage_inv_def B2 h_def by simp
  have new: "sample d' (c * 2 ^ Suc s + l') = partial_dft isign x L (Suc s) c l'"
    if c: "c < B" and l': "l' < 2 ^ Suc s" for c l'
  proof (cases "l' < h")
    case True
    have c2: "2 * c < 2 * B" "2 * c + 1 < 2 * B" using c by simp_all
    have e1: "c * (2 * h) + l' = (2 * c) * h + l'" by simp
    have e2: "c * (2 * h) + h + l' = (2 * c + 1) * h + l'" by (simp add: algebra_simps)
    have "sample d' (c * (2 * h) + l')
            = sample d (c * (2 * h) + l') + omega isign (2 * h) ^ l' * sample d (c * (2 * h) + h + l')"
      using d'(3) c True by simp
    also have "\<dots> = partial_dft isign x L s (2 * c) l'
                 + omega isign (2 * h) ^ l' * partial_dft isign x L s (2 * c + 1) l'"
      unfolding e1 e2 old [OF c2(1) True] old [OF c2(2) True] ..
    also have "\<dots> = partial_dft isign x L (Suc s) c l'"
      using partial_dft_step(1) [OF sg s, of l' x c] True by (simp add: h_def)
    finally show ?thesis by (simp add: h_def)
  next
    case False
    then obtain l where l: "l' = h + l" "l < h"
      using l' by (metis add_diff_inverse_nat h_def less_diff_conv2 mult_2 not_less power_Suc)
    have c2: "2 * c < 2 * B" "2 * c + 1 < 2 * B" using c by simp_all
    have e1: "c * (2 * h) + l = (2 * c) * h + l" by simp
    have e2: "c * (2 * h) + h + l = (2 * c + 1) * h + l" by (simp add: algebra_simps)
    have "sample d' (c * (2 * h) + h + l)
            = sample d (c * (2 * h) + l) - omega isign (2 * h) ^ l * sample d (c * (2 * h) + h + l)"
      using d'(3) c l(2) by simp
    also have "\<dots> = partial_dft isign x L s (2 * c) l
                 - omega isign (2 * h) ^ l * partial_dft isign x L s (2 * c + 1) l"
      unfolding e1 e2 old [OF c2(1) l(2)] old [OF c2(2) l(2)] ..
    also have "\<dots> = partial_dft isign x L (Suc s) c (h + l)"
      using partial_dft_step(2) [OF sg s, of l x c] l(2) by (simp add: h_def)
    finally show ?thesis by (simp add: h_def l(1) add.assoc)
  qed
  have "stage_inv isign x L (Suc s) d'"
    unfolding stage_inv_def using d'(2) inv new by (simp add: stage_inv_def B_def)
  with d'(1) show ?thesis by blast
qed

lemma dl_loop_exit: "\<not> mmax < nn \<Longrightarrow> dl_loop nn isign mmax d = Some (Inr d)"
  by (subst dl_loop.simps) simp

lemma dl_loop_step:
  "mmax < nn \<Longrightarrow> dl_stage nn isign mmax d = Some (Inr d1) \<Longrightarrow>
     dl_loop nn isign mmax d = dl_loop nn isign (2 * mmax) d1"
  by (subst dl_loop.simps) (simp add: push_bit_eq_mult mult.commute)

lemma dl_loop_inv:
  assumes "isign = 1 \<or> isign = - 1" and "s \<le> L" and "stage_inv isign x L s d"
  shows "\<exists>d'. dl_loop (2 * 2 ^ L) isign (2 * 2 ^ s) d = Some (Inr d') \<and> stage_inv isign x L L d'"
  using assms
proof (induction "L - s" arbitrary: s d)
  case 0
  then have s: "s = L" by simp
  have "dl_loop (2 * 2 ^ L) isign (2 * 2 ^ s) d = Some (Inr d)"
    by (rule dl_loop_exit) (simp add: s)
  with 0 s show ?case by simp
next
  case (Suc y)
  have s: "s < L" using Suc.hyps(2) by simp
  from stage_inv_step [OF Suc.prems(1) s Suc.prems(3)] obtain d1 where d1:
    "dl_stage (2 * 2 ^ L) isign (2 * 2 ^ s) d = Some (Inr d1)" "stage_inv isign x L (Suc s) d1"
    by blast
  have lt: "(2::int) * 2 ^ s < 2 * 2 ^ L" using s by simp
  have st: "dl_loop (2 * 2 ^ L) isign (2 * 2 ^ s) d = dl_loop (2 * 2 ^ L) isign (2 * (2 * 2 ^ s)) d1"
    by (rule dl_loop_step [OF lt d1(1)])
  have y: "y = L - Suc s" using Suc.hyps(2) by simp
  have sl: "Suc s \<le> L" using s by simp
  from Suc.hyps(1) [OF y Suc.prems(1) sl d1(2)] st show ?case by simp
qed

lemma dl_loop_stages:
  "s \<le> L \<Longrightarrow>
     dl_loop (2 * 2 ^ L) isign (2 * 2 ^ s) d = dl_stages (2 * 2 ^ L) isign (map (\<lambda>k. 2 * 2 ^ k) [s..<L]) d"
proof (induction "L - s" arbitrary: s d)
  case 0
  then have s: "s = L" by simp
  have "dl_loop (2 * 2 ^ L) isign (2 * 2 ^ s) d = Some (Inr d)"
    by (rule dl_loop_exit) (simp add: s)
  then show ?case by (simp add: s)
next
  case (Suc y)
  have s: "s < L" using Suc.hyps(2) by simp
  have lt: "(2::int) * 2 ^ s < 2 * 2 ^ L" using s by simp
  have up: "[s..<L] = s # [Suc s..<L]" using s by (simp add: upt_conv_Cons)
  have y: "y = L - Suc s" using Suc.hyps(2) by simp
  have sl: "Suc s \<le> L" using s by simp
  note IH = Suc.hyps(1) [OF y sl]
  show ?case
  proof (cases "dl_stage (2 * 2 ^ L) isign (2 * 2 ^ s) d")
    case None
    then show ?thesis using lt by (subst dl_loop.simps) (simp add: up)
  next
    case (Some r)
    show ?thesis
    proof (cases r)
      case (Inl p)
      then show ?thesis using Some lt by (subst dl_loop.simps) (simp add: up)
    next
      case (Inr d1)
      have "dl_loop (2 * 2 ^ L) isign (2 * 2 ^ s) d = dl_loop (2 * 2 ^ L) isign (2 * (2 * 2 ^ s)) d1"
        using Some Inr by (intro dl_loop_step [OF lt]) simp
      also have "\<dots> = dl_stages (2 * 2 ^ L) isign (map (\<lambda>k. 2 * 2 ^ k) [Suc s..<L]) d1"
        using IH [of d1] by simp
      finally show ?thesis using Some Inr by (simp add: up)
    qed
  qed
qed

lemma fix_loop_nth:
  assumes "i \<le> n" and "n \<le> length d"
  shows "\<exists>d'. fix_loop (int n) mul (int i) d = Inr d' \<and> length d' = length d
           \<and> (\<forall>k<length d. d' ! k = (if i \<le> k \<and> k < n then d ! k * mul else d ! k))"
  using assms
proof (induction "n - i" arbitrary: i d)
  case 0
  then have "fix_loop (int n) mul (int i) d = Inr d" by (subst fix_loop.simps) simp
  with 0 show ?case by auto
next
  case (Suc y)
  then have i: "i < n" by simp
  let ?d1 = "d[i := d ! i * mul]"
  have st: "fix_loop (int n) mul (int i) d = fix_loop (int n) mul (int (Suc i)) ?d1"
    using i Suc.prems(2) by (subst fix_loop.simps) (simp add: inb_def add.commute)
  have y: "y = n - Suc i" using Suc.hyps(2) by simp
  have "\<exists>d'. fix_loop (int n) mul (int (Suc i)) ?d1 = Inr d' \<and> length d' = length ?d1
           \<and> (\<forall>k<length ?d1. d' ! k = (if Suc i \<le> k \<and> k < n then ?d1 ! k * mul else ?d1 ! k))"
    by (rule Suc.hyps(1) [OF y]) (use i Suc.prems(2) in simp_all)
  then obtain d' where d': "fix_loop (int n) mul (int (Suc i)) ?d1 = Inr d'" "length d' = length d"
    "\<forall>k<length d. d' ! k = (if Suc i \<le> k \<and> k < n then ?d1 ! k * mul else ?d1 ! k)" by auto
  have "d' ! k = (if i \<le> k \<and> k < n then d ! k * mul else d ! k)" if k: "k < length d" for k
  proof (cases "k = i")
    case True
    then show ?thesis using d'(3) k i by simp
  next
    case False
    then have "(Suc i \<le> k \<and> k < n) = (i \<le> k \<and> k < n)" by auto
    then show ?thesis using d'(3) k False by simp
  qed
  with st d'(1,2) show ?case by auto
qed

lemma fix_inverse_nth:
  assumes "n \<le> length d"
  shows "\<exists>d'. fix_inverse inv_flag (int n) d = Inr d' \<and> length d' = length d
           \<and> (\<forall>k<length d. d' ! k = (if inv_flag \<and> k < n then d ! k * real n else d ! k))"
proof (cases inv_flag)
  case True
  have "fix_inverse inv_flag (int n) d = fix_loop (int n) (real n) (int 0) d"
    using True by (simp add: fix_inverse_def)
  with fix_loop_nth [of 0 n d "real n"] assms True show ?thesis by simp
next
  case False
  then show ?thesis by (simp add: fix_inverse_def)
qed

lemma isign_of_cases: "isign_of inv_flag = 1 \<or> isign_of inv_flag = - 1"
  by (simp add: isign_of_def)

lemma bit_reversal_inv:
  assumes "length data = 2 * 2 ^ L"
  shows "\<exists>d0. bit_reversal (2 ^ L) data = Inr d0 \<and> stage_inv isign (sample data) L 0 d0"
proof -
  from bit_reversal_samples [OF assms] obtain d0 where d0:
    "bit_reversal (2 ^ L) data = Inr d0" "length d0 = length data"
    "\<forall>p<2 ^ L. sample d0 p = sample data (bitrev L p)" by blast
  have "stage_inv isign (sample data) L 0 d0"
    using d0(2,3) assms by (simp add: stage_inv_def partial_dft_def)
  with d0(1) show ?thesis by blast
qed

lemma stage_inv_final:
  assumes "stage_inv isign x L L d" and "l < 2 ^ L"
  shows "sample d l = (\<Sum>k<2 ^ L. x k * omega isign (2 ^ L) ^ (k * l))"
  using assms by (simp add: stage_inv_def partial_dft_def)

lemma FourierTransLL_valid:
  assumes len: "length data = 2 * 2 ^ L" and L: "1 \<le> L"
  shows "\<exists>d2 d3. length d2 = length data
           \<and> (\<forall>l<2 ^ L. sample d2 l
                 = (\<Sum>k<2 ^ L. sample data k * omega (isign_of inv_flag) (2 ^ L) ^ (k * l)))
           \<and> length d3 = length data
           \<and> (\<forall>k<length data. d3 ! k = (if inv_flag \<and> k < 2 ^ L then d2 ! k * 2 ^ L else d2 ! k))
           \<and> FourierTransLL data inv_flag = Some (Inr (None, d3))"
proof -
  let ?sg = "isign_of inv_flag"
  from bit_reversal_inv [OF len, of ?sg] obtain d0 where d0:
    "bit_reversal (2 ^ L) data = Inr d0" "stage_inv ?sg (sample data) L 0 d0" by blast
  from dl_loop_inv [OF isign_of_cases _ d0(2)] obtain d2 where d2:
    "dl_loop (2 * 2 ^ L) ?sg (2 * 2 ^ 0) d0 = Some (Inr d2)" "stage_inv ?sg (sample data) L L d2"
    by blast
  have l2: "length d2 = length data" using d2(2) len by (simp add: stage_inv_def)
  have nle: "2 ^ L \<le> length d2" unfolding l2 len by simp
  from fix_inverse_nth [OF nle, of inv_flag] obtain d3 where d3:
    "fix_inverse inv_flag (int (2 ^ L)) d2 = Inr d3" "length d3 = length d2"
    "\<forall>k<length d2. d3 ! k = (if inv_flag \<and> k < 2 ^ L then d2 ! k * real (2 ^ L) else d2 ! k)"
    by blast
  have ld: "int (length data) = 2 * 2 ^ L" using len by simp
  have ge4: "\<not> (2 * 2 ^ L < (4::int))"
  proof -
    have "(2::int) ^ 1 \<le> 2 ^ L" using L by (intro power_increasing) simp_all
    then show ?thesis by simp
  qed
  have ge2: "\<not> ((2::int) ^ L < 2)" using ge4 by simp
  have p2: "IsPowerOfTwo (2 ^ L)" unfolding IsPowerOfTwo_iff_power by auto
  have pb: "push_bit 1 ((2::int) ^ L) = 2 * 2 ^ L" by (simp add: push_bit_eq_mult)
  have hf: "(2 * 2 ^ L :: int) div 2 = 2 ^ L" by simp
  have run: "FourierTransLL data inv_flag = Some (Inr (None, d3))"
    unfolding FourierTransLL_def Let_def ld hf pb using ge4 ge2 p2 d0(1) d2(1) d3(1)
    by simp
  have dft: "sample d2 l = (\<Sum>k<2 ^ L. sample data k * omega ?sg (2 ^ L) ^ (k * l))"
    if "l < 2 ^ L" for l
    by (rule stage_inv_final [OF d2(2) that])
  from l2 dft d3(2,3) run show ?thesis by (intro exI [of _ d2] exI [of _ d3]) simp
qed

section \<open>Validation, termination and absence of panics\<close>

lemma FourierTransLL_short:
  "length data < 4 \<or> odd (length data) \<Longrightarrow>
     FourierTransLL data inv_flag = Some (Inr (Some (InvalidLength (int (length data))), data))"
proof -
  assume a: "length data < 4 \<or> odd (length data)"
  have "int (length data) < 4 \<or> int (length data) mod 2 > 0"
  proof (cases "length data < 4")
    case True
    then show ?thesis by simp
  next
    case False
    with a have "length data mod 2 = 1" by (simp add: odd_iff_mod_2_eq_one)
    then have "int (length data) mod 2 = 1" by (simp add: zmod_int [symmetric, of _ 2, simplified])
    then show ?thesis by simp
  qed
  then show ?thesis by (simp add: FourierTransLL_def Let_def)
qed

lemma FourierTransLL_not_power:
  assumes "4 \<le> length data" and "even (length data)"
    and "length data div 2 < 2 \<or> (\<forall>k. length data div 2 \<noteq> 2 ^ k)"
  shows "FourierTransLL data inv_flag
           = Some (Inr (Some (NotPowerOfTwo (int (length data div 2))), data))"
proof -
  have "length data mod 2 = 0" using assms(2) by (simp add: even_iff_mod_2_eq_zero)
  then have "int (length data) mod 2 = 0" by (simp add: zmod_int [symmetric, of _ 2, simplified])
  then have c1: "\<not> (int (length data) < 4 \<or> int (length data) mod 2 > 0)"
    using assms(1) by simp
  have d: "int (length data) div 2 = int (length data div 2)" by (simp add: zdiv_int)
  have "\<not> IsPowerOfTwo (int (length data div 2))"
  proof
    assume "IsPowerOfTwo (int (length data div 2))"
    then obtain k :: nat where "int (length data div 2) = 2 ^ k"
      unfolding IsPowerOfTwo_iff_power by blast
    then have "int (length data div 2) = int (2 ^ k)" by simp
    then have "length data div 2 = 2 ^ k" by (simp only: of_nat_eq_iff)
    with assms(1,3) show False by auto
  qed
  then show ?thesis using c1 unfolding FourierTransLL_def Let_def d by simp
qed

lemma FourierTransLL_returns:
  assumes "4 \<le> length data" and "even (length data)" and "length data div 2 = 2 ^ L"
  shows "\<exists>d. FourierTransLL data inv_flag = Some (Inr (None, d)) \<and> length d = length data"
proof -
  have len: "length data = 2 * 2 ^ L" using assms(2,3) by auto
  have "L \<noteq> 0" using assms(1) len by (cases L) auto
  then have L: "1 \<le> L" by simp
  from FourierTransLL_valid [OF len L, of inv_flag] show ?thesis by blast
qed

text \<open>
  C2. The outcome of a call is decided by the length of the array alone. If the length is
  below \<open>4\<close> or odd, the call returns the length error. Otherwise, with \<open>n\<close> half
  the length, if \<open>n < 2\<close> or \<open>n\<close> is not a power of two, it returns the
  power-of-two error. Otherwise it returns \<^verbatim>\<open>nil\<close>: it neither panics nor runs
  forever. So an error is returned exactly for the invalid inputs.
\<close>

theorem C2_error_iff_invalid:
  "(length data < 4 \<or> odd (length data) \<longrightarrow>
      FourierTransLL data inv_flag = Some (Inr (Some (InvalidLength (int (length data))), data)))
   \<and> (4 \<le> length data \<and> even (length data)
        \<and> (length data div 2 < 2 \<or> (\<forall>k. length data div 2 \<noteq> 2 ^ k)) \<longrightarrow>
      FourierTransLL data inv_flag
        = Some (Inr (Some (NotPowerOfTwo (int (length data div 2))), data)))
   \<and> (4 \<le> length data \<and> even (length data)
        \<and> 2 \<le> length data div 2 \<and> (\<exists>k. length data div 2 = 2 ^ k) \<longrightarrow>
      (\<exists>d. FourierTransLL data inv_flag = Some (Inr (None, d))))
   \<and> ((\<exists>e d. FourierTransLL data inv_flag = Some (Inr (Some e, d))) \<longleftrightarrow>
        \<not> (4 \<le> length data \<and> even (length data)
             \<and> 2 \<le> length data div 2 \<and> (\<exists>k. length data div 2 = 2 ^ k)))"
proof -
  let ?r = "FourierTransLL data inv_flag"
  let ?valid = "4 \<le> length data \<and> even (length data)
      \<and> 2 \<le> length data div 2 \<and> (\<exists>k. length data div 2 = 2 ^ k)"
  have a: "length data < 4 \<or> odd (length data) \<longrightarrow>
      ?r = Some (Inr (Some (InvalidLength (int (length data))), data))"
    using FourierTransLL_short [of data inv_flag] by blast
  have b: "4 \<le> length data \<and> even (length data)
        \<and> (length data div 2 < 2 \<or> (\<forall>k. length data div 2 \<noteq> 2 ^ k)) \<longrightarrow>
      ?r = Some (Inr (Some (NotPowerOfTwo (int (length data div 2))), data))"
    using FourierTransLL_not_power [of data inv_flag] by blast
  have c: "?valid \<longrightarrow> (\<exists>d. ?r = Some (Inr (None, d)))"
    using FourierTransLL_returns [of data _ inv_flag] by blast
  have d: "(\<exists>e d. ?r = Some (Inr (Some e, d))) \<longleftrightarrow> \<not> ?valid"
  proof
    assume "\<exists>e d. ?r = Some (Inr (Some e, d))"
    with c show "\<not> ?valid" by auto
  next
    assume nv: "\<not> ?valid"
    show "\<exists>e d. ?r = Some (Inr (Some e, d))"
    proof (cases "length data < 4 \<or> odd (length data)")
      case True
      with a show ?thesis by blast
    next
      case False
      with nv have "4 \<le> length data \<and> even (length data)
        \<and> (length data div 2 < 2 \<or> (\<forall>k. length data div 2 \<noteq> 2 ^ k))" by auto
      with b show ?thesis by blast
    qed
  qed
  from a b c d show ?thesis by (intro conjI)
qed

theorem C2_error_iff_invalid_witness:
  "FourierTransLL [1, 2, 3, 4, 5] True = Some (Inr (Some (InvalidLength 5), [1, 2, 3, 4, 5]))
   \<and> FourierTransLL [1, 2, 3, 4, 5, 6] True = Some (Inr (Some (NotPowerOfTwo 3), [1, 2, 3, 4, 5, 6]))
   \<and> (\<exists>d. FourierTransLL [1, 2, 3, 4] True = Some (Inr (None, d)))"
proof -
  let ?a = "[1, 2, 3, 4, 5 :: real]"
  let ?b = "[1, 2, 3, 4, 5, 6 :: real]"
  let ?c = "[1, 2, 3, 4 :: real]"
  have ha: "length ?a < 4 \<or> odd (length ?a)" by simp
  from C2_error_iff_invalid [of ?a True] ha
  have "FourierTransLL ?a True = Some (Inr (Some (InvalidLength (int (length ?a))), ?a))"
    by blast
  then have a: "FourierTransLL ?a True = Some (Inr (Some (InvalidLength 5), ?a))" by simp
  have lb: "length ?b div 2 = 3" by simp
  have p3: "(3::nat) \<noteq> 2 ^ k" for k by (cases k; simp; arith)
  have hb: "4 \<le> length ?b \<and> even (length ?b)
      \<and> (length ?b div 2 < 2 \<or> (\<forall>k. length ?b div 2 \<noteq> 2 ^ k))"
    unfolding lb using p3 by simp
  from C2_error_iff_invalid [of ?b True] hb
  have "FourierTransLL ?b True = Some (Inr (Some (NotPowerOfTwo (int (length ?b div 2))), ?b))"
    by blast
  then have b: "FourierTransLL ?b True = Some (Inr (Some (NotPowerOfTwo 3), ?b))"
    unfolding lb by simp
  have lc: "length ?c div 2 = 2" by simp
  have "(2::nat) = 2 ^ 1" by simp
  then have p2: "\<exists>k. (2::nat) = 2 ^ k" ..
  have hc: "4 \<le> length ?c \<and> even (length ?c)
      \<and> 2 \<le> length ?c div 2 \<and> (\<exists>k. length ?c div 2 = 2 ^ k)"
    unfolding lc using p2 by simp
  from C2_error_iff_invalid [of ?c True] hc
  have c: "\<exists>d. FourierTransLL ?c True = Some (Inr (None, d))" by blast
  from a b c show ?thesis by blast
qed

lemma carry_exits: "\<exists>m' j'. carry m j = (m', j') \<and> \<not> (2 \<le> m' \<and> m' < j')"
proof (induction m j rule: carry.induct)
  case (1 m j)
  show ?case
  proof (cases "2 \<le> m \<and> m < j")
    case True
    then have "carry m j = carry (drop_bit 1 m) (j - m)" by (subst carry.simps) simp
    with 1 True show ?thesis by simp
  next
    case False
    then have "carry m j = (m, j)" by (rule carry_stop)
    with False show ?thesis by simp
  qed
qed

lemma FourierTransLL_total: "FourierTransLL data inv_flag \<noteq> None"
proof (cases "length data < 4 \<or> odd (length data)")
  case True
  then show ?thesis by (simp add: FourierTransLL_short)
next
  case False
  then have v: "4 \<le> length data" "even (length data)" by simp_all
  show ?thesis
  proof (cases "\<exists>k. length data div 2 = 2 ^ k")
    case True
    then obtain k where "length data div 2 = 2 ^ k" ..
    from FourierTransLL_returns [OF v this, of inv_flag] show ?thesis by auto
  next
    case False
    then have "length data div 2 < 2 \<or> (\<forall>k. length data div 2 \<noteq> 2 ^ k)" by simp
    from FourierTransLL_not_power [OF v this, of inv_flag] show ?thesis by simp
  qed
qed

text \<open>
  C9. Every call returns. The carry loop of the bit-reversal section stops, in a state
  where its guard is false, from every \<open>m\<close> and \<open>j\<close>. For \<open>n = 2^L\<close> the
  outer Danielson-Lanczos loop, started at \<open>mmax = 2\<close>, runs the stage body for
  \<open>mmax = 2, 4, \<dots>, 2^L = n\<close> in this order, which are \<open>L = log2 n\<close> passes, and
  at \<open>mmax = 2n\<close> it stops without a further pass.
\<close>

theorem C9_terminates:
  "FourierTransLL data inv_flag \<noteq> None
   \<and> (\<exists>m' j'. carry m j = (m', j') \<and> \<not> (2 \<le> m' \<and> m' < j'))
   \<and> dl_loop (push_bit 1 (2 ^ L)) isign 2 d
        = dl_stages (push_bit 1 (2 ^ L)) isign (map (\<lambda>k. 2 ^ k) [1..<L + 1]) d
   \<and> length (map (\<lambda>k. (2::int) ^ k) [1..<L + 1]) = L
   \<and> dl_loop (push_bit 1 (2 ^ L)) isign (2 * 2 ^ L) d = Some (Inr d)"
proof -
  have pb: "push_bit 1 ((2::int) ^ L) = 2 * 2 ^ L" by (simp add: push_bit_eq_mult)
  have m: "map (\<lambda>k. (2::int) ^ k) [1..<L + 1] = map (\<lambda>k. 2 * 2 ^ k) [0..<L]"
    by (induction L) simp_all
  have a: "dl_loop (2 * 2 ^ L) isign 2 d = dl_stages (2 * 2 ^ L) isign (map (\<lambda>k. 2 * 2 ^ k) [0..<L]) d"
    using dl_loop_stages [of 0 L isign d] by simp
  have b: "dl_loop (2 * 2 ^ L) isign (2 * 2 ^ L) d = Some (Inr d)"
    by (rule dl_loop_exit) simp
  show ?thesis unfolding pb m using FourierTransLL_total carry_exits a b by simp
qed

section \<open>The forward transform\<close>

lemma omega_power_cis:
  "omega isign n ^ (k * l) = cis (isign * (2 * pi * real k * real l / real n))"
  by (simp add: omega_def DeMoivre algebra_simps)

lemma forward_dft:
  assumes "length data = 2 * 2 ^ L" and "1 \<le> L"
  shows "\<exists>d'. FourierTransLL data False = Some (Inr (None, d')) \<and> length d' = length data
               \<and> (\<forall>l<2 ^ L. sample d' l
                     = (\<Sum>k<2 ^ L. sample data k * cis (- (2 * pi * real k * real l / 2 ^ L))))"
proof -
  from FourierTransLL_valid [OF assms, of False] obtain d2 d3 where d:
    "length d2 = length data"
    "\<forall>l<2 ^ L. sample d2 l = (\<Sum>k<2 ^ L. sample data k * omega (isign_of False) (2 ^ L) ^ (k * l))"
    "length d3 = length data"
    "\<forall>k<length data. d3 ! k = (if False \<and> k < 2 ^ L then d2 ! k * 2 ^ L else d2 ! k)"
    "FourierTransLL data False = Some (Inr (None, d3))" by blast
  have "d3 = d2" using d(1,3,4) by (intro nth_equalityI) simp_all
  with d(2) have s: "\<forall>l<2 ^ L. sample d3 l
      = (\<Sum>k<2 ^ L. sample data k * cis (- (2 * pi * real k * real l / 2 ^ L)))"
    by (simp add: omega_power_cis isign_of_def)
  from d(3,5) s show ?thesis by blast
qed

lemma length_concat_replicate_pair: "length (concat (replicate n [a, b])) = 2 * n"
  by (induction n) simp_all

lemma nth_concat_replicate_pair:
  "i < 2 * n \<Longrightarrow> concat (replicate n [a, b]) ! i = (if even i then a else b)"
proof (induction n arbitrary: i)
  case 0
  then show ?case by simp
next
  case (Suc n)
  show ?case
  proof (cases i)
    case 0
    then show ?thesis by simp
  next
    case (Suc i1)
    show ?thesis
    proof (cases i1)
      case 0
      with Suc show ?thesis by simp
    next
      case (Suc i2)
      with \<open>i = Suc i1\<close> Suc.prems have "i2 < 2 * n" by simp
      from Suc.IH [OF this] Suc \<open>i = Suc i1\<close> show ?thesis by simp
    qed
  qed
qed

text \<open>
  C6. For \<open>n = 2^L \<ge> 2\<close>, the forward call on the unit impulse, the array of \<open>2n\<close>
  reals \<open>[1, 0, 0, \<dots>, 0]\<close>, returns \<^verbatim>\<open>nil\<close> and leaves \<open>[1, 0, 1, 0, \<dots>, 1, 0]\<close>:
  every sample is \<open>(1, 0)\<close>.
\<close>

theorem C6_impulse:
  assumes "1 \<le> L"
  shows "FourierTransLL (1 # replicate (2 * 2 ^ L - 1) 0) False
           = Some (Inr (None, concat (replicate (2 ^ L) [1, 0])))"
proof -
  let ?n = "(2::nat) ^ L"
  define x :: "real list" where "x = 1 # replicate (2 * ?n - 1) 0"
  have len: "length x = 2 * 2 ^ L" by (simp add: x_def)
  have "1 \<le> ?n" by simp
  then have pos: "0 < 2 * ?n - Suc 0" by linarith
  have x0: "sample x 0 = 1" using pos by (simp add: x_def sample_def complex_eq_iff nth_Cons')
  have xk: "sample x k = 0" if "k \<in> {..<?n} - {0}" for k
  proof -
    from that have "k < ?n" "k \<noteq> 0" by simp_all
    then have "2 * k - 1 < 2 * ?n - 1" "2 * k < 2 * ?n - 1" by simp_all
    then show ?thesis using \<open>k \<noteq> 0\<close> by (simp add: x_def sample_def complex_eq_iff nth_Cons')
  qed
  from forward_dft [OF len assms] obtain d' where d':
    "FourierTransLL x False = Some (Inr (None, d'))" "length d' = length x"
    "\<forall>l<?n. sample d' l = (\<Sum>k<?n. sample x k * cis (- (2 * pi * real k * real l / 2 ^ L)))"
    by blast
  have one: "sample d' l = 1" if l: "l < ?n" for l
  proof -
    let ?f = "\<lambda>k. sample x k * cis (- (2 * pi * real k * real l / 2 ^ L))"
    have "sample d' l = (\<Sum>k<?n. ?f k)" using d'(3) l by blast
    also have "\<dots> = ?f 0 + (\<Sum>k\<in>{..<?n} - {0}. ?f k)"
      by (rule sum.remove) simp_all
    also have "(\<Sum>k\<in>{..<?n} - {0}. ?f k) = 0"
      by (rule sum.neutral) (intro ballI, simp only: xk mult_zero_left)
    finally show ?thesis by (simp add: x0)
  qed
  have "d' = concat (replicate ?n [1, 0])"
  proof (rule nth_equalityI)
    show "length d' = length (concat (replicate ?n [1, 0]))"
      using d'(2) len by (simp add: length_concat_replicate_pair)
  next
    fix i assume "i < length d'"
    then have i: "i < 2 * ?n" using d'(2) len by simp
    then have l: "i div 2 < ?n" by simp
    from one [OF l] have re: "d' ! (2 * (i div 2)) = 1" and im: "d' ! (2 * (i div 2) + 1) = 0"
      by (simp_all add: sample_def complex_eq_iff)
    have "d' ! i = (if even i then 1 else 0)"
    proof (cases "even i")
      case True
      then have "2 * (i div 2) = i" by simp
      with re True show ?thesis by simp
    next
      case False
      then have "2 * (i div 2) + 1 = i" by simp
      with im False show ?thesis by simp
    qed
    then show "d' ! i = concat (replicate ?n [1, 0]) ! i"
      using i by (simp add: nth_concat_replicate_pair)
  qed
  with d'(1) show ?thesis unfolding x_def by simp
qed

theorem C6_impulse_witness:
  "(1::nat) \<le> 2 \<and> FourierTransLL [1, 0, 0, 0, 0, 0, 0, 0] False = Some (Inr (None, [1, 0, 1, 0, 1, 0, 1, 0]))"
proof -
  have L: "(1::nat) \<le> 2" by simp
  have r: "replicate 7 (0::real) = [0, 0, 0, 0, 0, 0, 0]" by (simp add: numeral_eq_Suc)
  have c: "concat (replicate 4 [1, 0::real]) = [1, 0, 1, 0, 1, 0, 1, 0]" by (simp add: numeral_eq_Suc)
  from C6_impulse [OF L] show ?thesis using L by (simp add: r c)
qed

section \<open>The sign convention\<close>







end
